theory Spec2Isabelle
  imports Complex_Main
begin

section \<open>Prioritized experience replay (src/src/per.py)\<close>

text \<open>
  The buffer of class \<open>PER\<close>, the beta schedule and the numeric part of
  \<open>optimize_model\<close>. Python floats and tensor entries are idealised as real numbers;
  a computation whose float result would be \<open>inf\<close> or \<open>nan\<close> is marked explicitly.
  The random draw of \<open>np.random.choice\<close> and the two networks are external: the drawn
  indices and the networks' forward functions are arguments of the model.
\<close>

subsection \<open>Errors\<close>

text \<open>
  The exceptions the modelled code can raise. \<open>NotFinite\<close> is not a Python exception:
  it marks a float result \<open>inf\<close> or \<open>nan\<close>, with which numpy carries on and which the
  real-number model does not follow further.
\<close>

datatype error = IndexError | ValueError | RuntimeError | ZeroDivisionError | NotFinite

definition ebind :: "error + 'a \<Rightarrow> ('a \<Rightarrow> error + 'b) \<Rightarrow> error + 'b" where
  "ebind m f = (case m of Inl e \<Rightarrow> Inl e | Inr x \<Rightarrow> f x)"

fun sequence_err :: "(error + 'a) list \<Rightarrow> error + 'a list" where
  "sequence_err [] = Inr []"
| "sequence_err (m # ms) = ebind m (\<lambda>x. ebind (sequence_err ms) (\<lambda>xs. Inr (x # xs)))"

subsection \<open>Data model\<close>

text \<open>
  \<open>Transition = namedtuple('Transition', ('state', 'action', 'reward', 'next_state', 'done'))\<close>.
  The training loop stores \<open>next_state = None\<close> for a terminal step; \<open>reward\<close> is a
  one-element tensor and \<open>action\<close> a 1x1 tensor holding an action index.
\<close>

record 's transition =
  state :: 's
  action :: nat
  reward :: real
  next_state :: "'s option"
  done_flag :: bool

text \<open>The attributes of a \<open>PER\<close> object.\<close>

record 's per =
  prob_alpha :: real
  capacity :: nat
  memory :: "'s transition list"
  pos :: nat
  priorities :: "real list"

text \<open>\<open>PER.__init__\<close>: an empty memory and \<open>np.zeros((capacity,))\<close>.\<close>

definition init :: "nat \<Rightarrow> real \<Rightarrow> 's per" where
  "init cap alpha =
     \<lparr>prob_alpha = alpha, capacity = cap, memory = [], pos = 0, priorities = replicate cap 0\<rparr>"

subsection \<open>Indexing\<close>

text \<open>\<open>xs[i] = v\<close> for a non-negative index: IndexError out of range.\<close>

definition list_set :: "'a list \<Rightarrow> nat \<Rightarrow> 'a \<Rightarrow> error + 'a list" where
  "list_set xs i v = (if i < length xs then Inr (xs[i := v]) else Inl IndexError)"

text \<open>\<open>xs[i]\<close> for a non-negative index.\<close>

definition list_get :: "'a list \<Rightarrow> nat \<Rightarrow> error + 'a" where
  "list_get xs i = (if i < length xs then Inr (xs ! i) else Inl IndexError)"

text \<open>\<open>a[i] = v\<close> for any Python integer: a negative index counts from the end.\<close>

definition np_setitem :: "'a list \<Rightarrow> int \<Rightarrow> 'a \<Rightarrow> error + 'a list" where
  "np_setitem xs i v =
     (if 0 \<le> i \<and> i < int (length xs) then Inr (xs[nat i := v])
      else if i < 0 \<and> - int (length xs) \<le> i then Inr (xs[nat (int (length xs) + i) := v])
      else Inl IndexError)"

text \<open>\<open>a.max()\<close>: ValueError on an empty array.\<close>

definition np_max :: "real list \<Rightarrow> error + real" where
  "np_max xs = (if xs = [] then Inl ValueError else Inr (Max (set xs)))"

subsection \<open>push and len\<close>

text \<open>
  \<open>PER.push\<close>, statement by statement: the seed priority, the append or overwrite at
  \<open>pos\<close>, the priority write, the cursor advance (\<open>%\<close> by zero raises).
\<close>

definition push :: "'s per \<Rightarrow> 's transition \<Rightarrow> error + 's per" where
  "push p t =
     ebind (if memory p \<noteq> [] then np_max (priorities p) else Inr 1) (\<lambda>max_prio.
     ebind (if length (memory p) < capacity p then Inr (memory p @ [t])
            else list_set (memory p) (pos p) t) (\<lambda>mem.
     ebind (list_set (priorities p) (pos p) max_prio) (\<lambda>prs.
     if capacity p = 0 then Inl ZeroDivisionError
     else Inr (p\<lparr>memory := mem, priorities := prs, pos := (pos p + 1) mod capacity p\<rparr>))))"

text \<open>\<open>PER.__len__\<close>.\<close>

definition len :: "'s per \<Rightarrow> nat" where
  "len p = length (memory p)"

text \<open>A sequence of \<open>push\<close> calls, stopping at the first exception.\<close>

fun pushes :: "'s per \<Rightarrow> 's transition list \<Rightarrow> error + 's per" where
  "pushes p [] = Inr p"
| "pushes p (t # ts) = ebind (push p t) (\<lambda>p'. pushes p' ts)"

subsection \<open>Sampling\<close>

text \<open>The module-level constants used by the modelled functions.\<close>

definition BATCH_SIZE :: nat where
  "BATCH_SIZE = 32"

definition GAMMA :: real where
  "GAMMA = 8 / 10"

definition beta_start :: real where
  "beta_start = 4 / 10"

definition beta_frames :: int where
  "beta_frames = 1000"

text \<open>
  \<open>x ** a\<close> on floats, where the result is finite: a positive base, zero to a
  non-negative exponent, a negative base to an integer exponent. \<open>None\<close> stands for
  \<open>inf\<close> (zero to a negative exponent) and \<open>nan\<close> (negative base, fractional exponent).
\<close>

definition np_pow :: "real \<Rightarrow> real \<Rightarrow> real option" where
  "np_pow x a =
     (if 0 < x then Some (x powr a)
      else if x = 0 then (if a = 0 then Some 1 else if 0 < a then Some 0 else None)
      else if a \<in> \<int> then Some (x powi \<lfloor>a\<rfloor>) else None)"

text \<open>The slice of the priority store that \<open>sample\<close> reads.\<close>

definition sample_prios :: "'s per \<Rightarrow> real list" where
  "sample_prios p =
     (if length (memory p) = capacity p then priorities p else take (pos p) (priorities p))"

text \<open>
  \<open>probs = prios ** self.prob_alpha; probs /= probs.sum()\<close>. \<open>None\<close> when the array
  holds \<open>nan\<close> or \<open>inf\<close> afterwards (a non-finite power, or a zero sum).
\<close>

definition sample_probs :: "'s per \<Rightarrow> real list option" where
  "sample_probs p =
     (case those (map (\<lambda>x. np_pow x (prob_alpha p)) (sample_prios p)) of
        None \<Rightarrow> None
      | Some pw \<Rightarrow> if sum_list pw = 0 then None else Some (map (\<lambda>x. x / sum_list pw) pw))"

text \<open>
  \<open>np.random.choice(a, k, p=p)\<close> is numpy's. It raises ValueError when \<open>a\<close> is zero,
  when \<open>p\<close> has another length than \<open>a\<close>, holds \<open>nan\<close> or a negative entry, or does
  not sum to one. Otherwise it draws by inverse transform: \<open>cdf = p.cumsum()\<close>,
  \<open>cdf /= cdf[-1]\<close>, and every uniform sample \<open>u\<close> of the generator, taken from
  [0, 1), gives the index \<open>cdf.searchsorted(u, side='right')\<close>. The generator's uniform
  samples are the argument \<open>rng\<close>: \<open>rng i\<close> is the one used for draw number \<open>i\<close>.
\<close>

definition cumsum :: "real list \<Rightarrow> real list" where
  "cumsum xs = map (\<lambda>k. sum_list (take (Suc k) xs)) [0..<length xs]"

text \<open>
  \<open>a.searchsorted(v, side='right')\<close> on a sorted array: the number of leading entries
  that are at most \<open>v\<close>.
\<close>

definition searchsorted_right :: "real list \<Rightarrow> real \<Rightarrow> nat" where
  "searchsorted_right a v = length (takeWhile (\<lambda>c. c \<le> v) a)"

definition np_random_choice ::
  "(nat \<Rightarrow> real) \<Rightarrow> nat \<Rightarrow> nat \<Rightarrow> real list \<Rightarrow> error + nat list" where
  "np_random_choice rng a k p =
     (if a = 0 \<or> length p \<noteq> a \<or> \<not> list_all (\<lambda>x. 0 \<le> x) p \<or> sum_list p \<noteq> 1
      then Inl ValueError
      else
        let cdf = map (\<lambda>c. c / last (cumsum p)) (cumsum p)
        in Inr (map (\<lambda>i. searchsorted_right cdf (rng i)) [0..<k]))"

text \<open>\<open>torch.cat\<close> of a sequence of tensors: RuntimeError on an empty sequence.\<close>

definition torch_cat :: "'a list \<Rightarrow> error + 'a list" where
  "torch_cat xs = (if xs = [] then Inl RuntimeError else Inr xs)"

text \<open>The tuple \<open>sample\<close> returns.\<close>

record 's batch =
  states :: "'s list"
  actions :: "nat list"
  rewards :: "real list"
  next_states :: "'s option list"
  dones :: "bool list"
  indices :: "nat list"
  weights :: "real list"

text \<open>
  \<open>PER.sample\<close>, statement by statement. \<open>f32\<close> is the rounding of a double to the
  nearest float32, the cast of \<open>np.array(weights, dtype=np.float32)\<close>; \<open>rng\<close> holds the
  uniform samples that \<open>np.random.choice\<close> consumes. A \<open>probs\<close> array that holds \<open>nan\<close>
  makes \<open>np.random.choice\<close> raise ValueError.
\<close>

definition sample ::
  "(real \<Rightarrow> real) \<Rightarrow> 's per \<Rightarrow> real \<Rightarrow> (nat \<Rightarrow> real) \<Rightarrow> error + 's batch" where
  "sample f32 p beta rng =
     (case sample_probs p of
        None \<Rightarrow> Inl ValueError
      | Some probs \<Rightarrow>
          ebind (np_random_choice rng (length (memory p)) BATCH_SIZE probs) (\<lambda>idxs.
          let total = length (memory p) in
          ebind (sequence_err (map (list_get probs) idxs)) (\<lambda>drawn.
          ebind (case those (map (\<lambda>x. np_pow (real total * x) (- beta)) drawn) of
                   None \<Rightarrow> Inl NotFinite | Some w \<Rightarrow> Inr w) (\<lambda>w.
          ebind (np_max w) (\<lambda>m.
          if m = 0 then Inl NotFinite
          else
            ebind (sequence_err (map (list_get (memory p)) idxs)) (\<lambda>trs.
            ebind (torch_cat (map state trs)) (\<lambda>sts.
            ebind (torch_cat (map action trs)) (\<lambda>acts.
            ebind (torch_cat (map reward trs)) (\<lambda>rews.
            Inr \<lparr>states = sts, actions = acts, rewards = rews,
                 next_states = map next_state trs, dones = map done_flag trs,
                 indices = idxs, weights = map f32 (map (\<lambda>x. x / m) w)\<rparr>)))))))))"

subsection \<open>update_priorities\<close>

text \<open>
  The loop \<open>for idx, prio in zip(batch_indices, batch_priorities): self.priorities[idx] = prio[0]\<close>
  over the zipped pairs; each priority payload is a row, of which the first entry is read.
\<close>

fun update_loop :: "real list \<Rightarrow> (int \<times> real list) list \<Rightarrow> error + real list" where
  "update_loop prs [] = Inr prs"
| "update_loop prs ((idx, prio) # rest) =
     ebind (list_get prio 0) (\<lambda>v.
     ebind (np_setitem prs idx v) (\<lambda>prs'. update_loop prs' rest))"

definition update_priorities :: "'s per \<Rightarrow> int list \<Rightarrow> real list list \<Rightarrow> error + 's per" where
  "update_priorities p batch_indices batch_priorities =
     ebind (update_loop (priorities p) (zip batch_indices batch_priorities))
       (\<lambda>prs. Inr (p\<lparr>priorities := prs\<rparr>))"

subsection \<open>Beta schedule\<close>

text \<open>
  \<open>beta_by_frame = lambda frame_idx: min(1.0, beta_start + frame_idx * (1.0 - beta_start) / beta_frames)\<close>,
  called with the integer step counter.
\<close>

definition beta_by_frame :: "int \<Rightarrow> real" where
  "beta_by_frame frame_idx =
     min 1 (beta_start + of_int frame_idx * (1 - beta_start) / of_int beta_frames)"

subsection \<open>Tensor operations of the training step\<close>

text \<open>
  A one-dimensional tensor is a list, a two-dimensional one a list of rows.
  Elementwise operations broadcast a dimension of size one; other size mismatches
  raise RuntimeError.
\<close>

definition bcast :: "('a \<Rightarrow> 'b \<Rightarrow> error + 'c) \<Rightarrow> 'a list \<Rightarrow> 'b list \<Rightarrow> error + 'c list" where
  "bcast f xs ys =
     (if length xs = length ys then sequence_err (map (\<lambda>(x, y). f x y) (zip xs ys))
      else if length xs = 1 then sequence_err (map (f (hd xs)) ys)
      else if length ys = 1 then sequence_err (map (\<lambda>x. f x (hd ys)) xs)
      else Inl RuntimeError)"

definition t1_op :: "(real \<Rightarrow> real \<Rightarrow> real) \<Rightarrow> real list \<Rightarrow> real list \<Rightarrow> error + real list" where
  "t1_op f = bcast (\<lambda>x y. Inr (f x y))"

definition t2_op ::
  "(real \<Rightarrow> real \<Rightarrow> real) \<Rightarrow> real list list \<Rightarrow> real list list \<Rightarrow> error + real list list" where
  "t2_op f = bcast (t1_op f)"

text \<open>\<open>x.unsqueeze(1)\<close>: shape (n) to shape (n, 1).\<close>

definition unsqueeze1 :: "real list \<Rightarrow> real list list" where
  "unsqueeze1 xs = map (\<lambda>x. [x]) xs"

text \<open>
  \<open>q_values.gather(1, action)\<close> with \<open>action\<close> of shape (n, 1): row \<open>i\<close> of the result
  is \<open>[q_values[i][action[i]]]\<close>.
\<close>

definition gather1 :: "real list list \<Rightarrow> nat list \<Rightarrow> error + real list list" where
  "gather1 q acts =
     (if length q < length acts then Inl RuntimeError
      else sequence_err
             (map (\<lambda>(row, a). if a < length row then Inr [row ! a] else Inl RuntimeError)
                (zip q acts)))"

text \<open>\<open>t.max(1)[0]\<close>: the maximum of each row.\<close>

definition row_max :: "real list list \<Rightarrow> error + real list" where
  "row_max rows =
     sequence_err (map (\<lambda>row. if row = [] then Inl RuntimeError else Inr (Max (set row))) rows)"

text \<open>The values of \<open>vals\<close> written, in order, to the positions where the mask is true.\<close>

fun scatter :: "real list \<Rightarrow> bool list \<Rightarrow> real list \<Rightarrow> real list" where
  "scatter (x # xs) (True # ms) (v # vs) = v # scatter xs ms vs"
| "scatter (x # xs) (False # ms) vs = x # scatter xs ms vs"
| "scatter xs ms vs = xs"

text \<open>
  \<open>t[mask] = vals\<close>: the mask has the tensor's length, and \<open>vals\<close> has one entry for
  each true position, or a single entry that is broadcast.
\<close>

definition masked_assign :: "real list \<Rightarrow> bool list \<Rightarrow> real list \<Rightarrow> error + real list" where
  "masked_assign t msk vals =
     (let k = length (filter (\<lambda>b. b) msk) in
      if length msk \<noteq> length t then Inl IndexError
      else if length vals = k then Inr (scatter t msk vals)
      else if length vals = 1 then Inr (scatter t msk (replicate k (hd vals)))
      else Inl RuntimeError)"

text \<open>\<open>[s for s in next_state if s is not None]\<close>.\<close>

definition non_final :: "'s option list \<Rightarrow> 's list" where
  "non_final ns = map the (filter (\<lambda>s. s \<noteq> None) ns)"

subsection \<open>The training step\<close>

text \<open>
  Lines 239 to 251 of \<open>optimize_model\<close>: the mask, the concatenated non-final next
  states, the target network's row maxima written into a zero tensor of length
  \<open>BATCH_SIZE\<close>, and \<open>next_q_values * GAMMA + reward\<close>. The target network is in
  evaluation mode and is applied row by row.
\<close>

definition expected_q_value ::
  "('s \<Rightarrow> real list) \<Rightarrow> 's option list \<Rightarrow> real list \<Rightarrow> error + real list" where
  "expected_q_value target_net next_st rewardv =
     (let non_final_mask = map (\<lambda>s. s \<noteq> None) next_st in
      ebind (torch_cat (non_final next_st)) (\<lambda>non_final_next_states.
      ebind (row_max (map target_net non_final_next_states)) (\<lambda>tv.
      ebind (masked_assign (replicate BATCH_SIZE 0) non_final_mask tv) (\<lambda>next_q_values.
      t1_op (+) (map (\<lambda>x. x * GAMMA) next_q_values) rewardv))))"

text \<open>
  Line 253: \<open>(q_value - expected_q_value.unsqueeze(1)).pow(2) * torch.as_tensor(weights)\<close>,
  where \<open>q_value\<close> has shape (n, 1) and \<open>weights\<close> shape (n).
\<close>

definition td_loss :: "real list list \<Rightarrow> real list \<Rightarrow> real list \<Rightarrow> error + real list list" where
  "td_loss q_value expected ws =
     ebind (t2_op (-) q_value (unsqueeze1 expected)) (\<lambda>d.
     t2_op (*) (map (map (\<lambda>x. x ^ 2)) d) [ws])"

text \<open>Line 254: \<open>prios = loss.detach() + 1e-5\<close>.\<close>

definition td_prios :: "real list list \<Rightarrow> real list list" where
  "td_prios loss = map (map (\<lambda>x. x + 1 / 100000)) loss"

text \<open>\<open>loss.mean()\<close> over all entries.\<close>

definition mean :: "real list list \<Rightarrow> real" where
  "mean loss = sum_list (concat loss) / real (length (concat loss))"

text \<open>
  The tensors of the training step are float32. Rounding is not modelled; a result
  whose magnitude exceeds the largest finite float32 is \<open>inf\<close> in the code.
\<close>

definition FLT_MAX :: real where
  "FLT_MAX = (2 - 1 / 2 ^ 23) * 2 ^ 127"

definition finite32 :: "real list list \<Rightarrow> bool" where
  "finite32 t \<longleftrightarrow> list_all (list_all (\<lambda>x. \<bar>x\<bar> \<le> FLT_MAX)) t"

text \<open>
  \<open>optimize_model(beta)\<close> on the global buffer: the returned pair is the buffer after
  the step and the loss (\<open>None\<close> for the early return). The gradient step of the
  optimizer does not touch the buffer and is left out. \<open>policy_net\<close> maps the batch of
  states to one row of action values per state. The step is marked \<open>NotFinite\<close> when
  the targets, the errors, their squares, the weighted loss or the new priorities leave
  the float32 range.
\<close>

definition optimize_model ::
  "(real \<Rightarrow> real) \<Rightarrow> ('s list \<Rightarrow> real list list) \<Rightarrow> ('s \<Rightarrow> real list) \<Rightarrow> 's per \<Rightarrow> real
     \<Rightarrow> (nat \<Rightarrow> real) \<Rightarrow> error + ('s per \<times> real option)" where
  "optimize_model f32 policy_net target_net per_memory beta rng =
     (if len per_memory < BATCH_SIZE then Inr (per_memory, None)
      else
        ebind (sample f32 per_memory beta rng) (\<lambda>b.
        ebind (torch_cat (non_final (next_states b))) (\<lambda>_.
        ebind (gather1 (policy_net (states b)) (actions b)) (\<lambda>q_value.
        ebind (expected_q_value target_net (next_states b) (rewards b)) (\<lambda>expected.
        ebind (t2_op (-) q_value (unsqueeze1 expected)) (\<lambda>d.
        if \<not> (finite32 [expected] \<and> finite32 d \<and> finite32 (map (map (\<lambda>x. x ^ 2)) d))
        then Inl NotFinite
        else
          ebind (td_loss q_value expected (weights b)) (\<lambda>loss.
          if \<not> (finite32 loss \<and> finite32 (td_prios loss)) then Inl NotFinite
          else
            ebind (update_priorities per_memory (map int (indices b)) (td_prios loss)) (\<lambda>p'.
            Inr (p', Some (mean loss))))))))))"

subsection \<open>The buffer's protocol\<close>

text \<open>
  The calls that reach the buffer: \<open>push\<close> from the training loop, \<open>update_priorities\<close>
  from a caller, and a whole training step, with the two networks as they are at that
  step, the value of \<open>beta\<close> and the uniform samples the step consumes.
\<close>

datatype 's op =
  Push "'s transition"
| Update "int list" "real list list"
| Train "'s list \<Rightarrow> real list list" "'s \<Rightarrow> real list" real "nat \<Rightarrow> real"

fun step :: "(real \<Rightarrow> real) \<Rightarrow> 's per \<Rightarrow> 's op \<Rightarrow> error + 's per" where
  "step f32 p (Push t) = push p t"
| "step f32 p (Update idxs prios) = update_priorities p idxs prios"
| "step f32 p (Train pn tn beta rng) =
     ebind (optimize_model f32 pn tn p beta rng) (\<lambda>r. Inr (fst r))"

fun run :: "(real \<Rightarrow> real) \<Rightarrow> 's per \<Rightarrow> 's op list \<Rightarrow> error + 's per" where
  "run f32 p [] = Inr p"
| "run f32 p (x # xs) = ebind (step f32 p x) (\<lambda>p'. run f32 p' xs)"


text \<open>
  The shape the buffer keeps: a store of \<open>capacity\<close> entries, the cursor below the
  capacity and equal to the size until the buffer is full.
\<close>

definition per_wf :: "'s per \<Rightarrow> bool" where
  "per_wf p \<longleftrightarrow>
     0 < capacity p \<and> length (priorities p) = capacity p \<and> length (memory p) \<le> capacity p
     \<and> pos p < capacity p
     \<and> (length (memory p) < capacity p \<longrightarrow> pos p = length (memory p))"


subsection \<open>Derived quantities\<close>

text \<open>The slot a Python index denotes in an array of length \<open>n\<close>.\<close>

definition norm_index :: "nat \<Rightarrow> int \<Rightarrow> nat" where
  "norm_index n i = nat (if i < 0 then int n + i else i)"

text \<open>The first \<open>size\<close> entries of the priority store.\<close>

definition meaningful :: "'s per \<Rightarrow> real list" where
  "meaningful p = take (len p) (priorities p)"

text \<open>An array divided by its sum.\<close>

definition normalise :: "real list \<Rightarrow> real list" where
  "normalise v = map (\<lambda>x. x / sum_list v) v"

text \<open>The sum of the first \<open>k\<close> entries: where the interval of index \<open>k\<close> starts.\<close>

definition cum :: "real list \<Rightarrow> nat \<Rightarrow> real" where
  "cum ps k = sum_list (take k ps)"


text \<open>
  The targets in the spec's words: the reward alone for a terminal transition, the
  reward plus \<open>GAMMA\<close> times the largest action value of the target network at the
  next state otherwise.
\<close>

definition spec_targets :: "('s \<Rightarrow> real list) \<Rightarrow> 's option list \<Rightarrow> real list \<Rightarrow> real list" where
  "spec_targets target_net next_st rewardv =
     map (\<lambda>(ns, r). case ns of None \<Rightarrow> r
                       | Some s \<Rightarrow> r + GAMMA * Max (set (target_net s)))
       (zip next_st rewardv)"

text \<open>The first \<open>k\<close> uniform samples of the generator lie in [0, 1).\<close>

definition uniform_samples :: "(nat \<Rightarrow> real) \<Rightarrow> nat \<Rightarrow> bool" where
  "uniform_samples rng k \<longleftrightarrow> list_all (\<lambda>i. 0 \<le> rng i \<and> rng i < 1) [0..<k]"

text \<open>
  The importance weights in the spec's words: \<open>(size * probs[index]) ** (-beta)\<close> for
  each drawn index, divided by the maximum of these.
\<close>

definition spec_weights :: "nat \<Rightarrow> real list \<Rightarrow> real \<Rightarrow> nat list \<Rightarrow> real list" where
  "spec_weights n probs beta idxs =
     map (\<lambda>i. (real n * probs ! i) powr (- beta)
                / Max (set (map (\<lambda>j. (real n * probs ! j) powr (- beta)) idxs))) idxs"

subsection \<open>Example data\<close>

text \<open>A transition marked by a number, terminal or not, for the worked examples.\<close>

definition tr :: "nat \<Rightarrow> bool \<Rightarrow> nat transition" where
  "tr n fin = \<lparr>state = n, action = 0, reward = 1,
               next_state = (if fin then None else Some (Suc n)), done_flag = fin\<rparr>"

text \<open>A buffer of capacity three that holds two transitions.\<close>

definition buf :: "nat per" where
  "buf = \<lparr>prob_alpha = 6 / 10, capacity = 3, memory = [tr 1 False, tr 2 True], pos = 2,
          priorities = [1, 1, 0]\<rparr>"




text \<open>An episode of 32 steps: 31 steps that go on and a terminal last step.\<close>

definition episode :: "nat transition list" where
  "episode = replicate 31 (tr 0 False) @ [tr 1 True]"

text \<open>Two stand-in networks for the worked examples, with two actions.\<close>

definition pn0 :: "nat list \<Rightarrow> real list list" where
  "pn0 sts = map (\<lambda>s. [0, 0]) sts"

definition tn0 :: "nat \<Rightarrow> real list" where
  "tn0 s = [1, 2]"

subsection \<open>Basic facts\<close>

lemma ebind_Inr [simp]: "ebind (Inr x) f = f x"
  by (simp add: ebind_def)

lemma ebind_Inl [simp]: "ebind (Inl e) f = Inl e"
  by (simp add: ebind_def)

lemma ebind_eq_Inr: "ebind m f = Inr y \<longleftrightarrow> (\<exists>x. m = Inr x \<and> f x = Inr y)"
  by (cases m) simp_all

lemma pushes_append:
  "pushes p (ts @ us) = ebind (pushes p ts) (\<lambda>p'. pushes p' us)"
proof (induction ts arbitrary: p)
  case Nil
  show ?case by simp
next
  case (Cons t ts)
  show ?case by (cases "push p t") (simp_all add: Cons.IH)
qed

subsection \<open>The shape of the buffer under push\<close>

lemma push_wf_eq:
  assumes "per_wf p"
  shows "push p t = Inr (p\<lparr>memory := (if length (memory p) < capacity p then memory p @ [t]
                                      else (memory p)[pos p := t]),
                         priorities := (priorities p)[pos p :=
                            (if memory p \<noteq> [] then Max (set (priorities p)) else 1)],
                         pos := (pos p + 1) mod capacity p\<rparr>)"
  using assms by (auto simp: push_def per_wf_def np_max_def list_set_def)

lemma push_per_wf:
  assumes "per_wf p" "push p t = Inr p'"
  shows "per_wf p'"
  using assms(2) unfolding push_wf_eq [OF assms(1)]
  using assms(1) by (auto simp: per_wf_def mod_Suc)

lemma pushes_init_inv:
  assumes "0 < c"
  shows "\<exists>p. pushes (init c a) ts = Inr p \<and> per_wf p \<and> capacity p = c
           \<and> length (memory p) = min (length ts) c \<and> pos p = length ts mod c
           \<and> (\<forall>j<length ts. length ts - c \<le> j \<longrightarrow> memory p ! (j mod c) = ts ! j)"
proof (induction ts rule: rev_induct)
  case Nil
  show ?case using assms by (simp add: init_def per_wf_def)
next
  case (snoc t ts)
  then obtain p where p: "pushes (init c a) ts = Inr p" "per_wf p" "capacity p = c"
    "length (memory p) = min (length ts) c" "pos p = length ts mod c"
    "\<forall>j<length ts. length ts - c \<le> j \<longrightarrow> memory p ! (j mod c) = ts ! j"
    by blast
  let ?p' = "p\<lparr>memory := (if length (memory p) < capacity p then memory p @ [t]
                                      else (memory p)[pos p := t]),
                         priorities := (priorities p)[pos p :=
                            (if memory p \<noteq> [] then Max (set (priorities p)) else 1)],
                         pos := (pos p + 1) mod capacity p\<rparr>"
  have e: "push p t = Inr ?p'" by (rule push_wf_eq [OF p(2)])
  have r: "pushes (init c a) (ts @ [t]) = Inr ?p'"
    by (simp add: pushes_append p(1) e)
  have wf: "per_wf ?p'" by (rule push_per_wf [OF p(2) e])
  have len: "length (memory ?p') = min (length (ts @ [t])) c"
    using p(3,4) by auto
  have ps: "pos ?p' = length (ts @ [t]) mod c"
    using p(3,5) by (simp add: mod_Suc_eq)
  have nth: "memory ?p' ! (j mod c) = (ts @ [t]) ! j"
    if "j < length (ts @ [t])" "length (ts @ [t]) - c \<le> j" for j
  proof (cases "j = length ts")
    case True
    show ?thesis
    proof (cases "length ts < c")
      case True
      with \<open>j = length ts\<close> p(3,4) show ?thesis by (simp add: nth_append)
    next
      case False
      with \<open>j = length ts\<close> p(3,4,5) assms show ?thesis by simp
    qed
  next
    case False
    with that have j: "j < length ts" by simp
    show ?thesis
    proof (cases "length ts < c")
      case True
      with j p(3,4,6) show ?thesis by (simp add: nth_append)
    next
      case False
      then have ge: "c \<le> length ts" by simp
      from that j ge have lo: "length ts - c < j" by simp
      then have lo': "length ts - c \<le> j" by simp
      have ne: "j mod c \<noteq> length ts mod c"
      proof
        assume eq: "j mod c = length ts mod c"
        have "(length ts - j) mod c = 0"
          using eq j by (metis less_or_eq_imp_le mod_eq_dvd_iff_nat dvd_imp_mod_0)
        moreover have "0 < length ts - j" "length ts - j < c" using j lo ge by auto
        ultimately show False by simp
      qed
      from p(6) j lo' have "memory p ! (j mod c) = ts ! j" by blast
      with ne ge p(3,4,5) j show ?thesis by (simp add: nth_append)
    qed
  qed
  show ?case using r wf len ps nth p(3) by (intro exI [of _ ?p']) simp
qed

subsection \<open>C1: circular eviction\<close>

text \<open>
  C1. On a fresh buffer of capacity \<open>c > 0\<close> every sequence of pushes succeeds. The
  length is the number of pushes up to \<open>c\<close> and \<open>c\<close> from then on, the cursor is the
  number of pushes modulo \<open>c\<close> and so below \<open>c\<close>. Up to \<open>c\<close> pushes the memory is the
  pushed sequence; push number \<open>j\<close> of the last \<open>c\<close> sits in slot \<open>j mod c\<close>, so that
  reading the ring from the cursor gives the last \<open>c\<close> pushes, oldest first.
\<close>

theorem push_fifo:
  assumes "0 < c"
  shows "\<exists>p. pushes (init c a) ts = Inr p
           \<and> len p = min (length ts) c
           \<and> pos p = length ts mod c \<and> pos p < c
           \<and> (length ts \<le> c \<longrightarrow> memory p = ts)
           \<and> (\<forall>j<length ts. length ts - c \<le> j \<longrightarrow> memory p ! (j mod c) = ts ! j)
           \<and> (c \<le> length ts \<longrightarrow> rotate (pos p) (memory p) = drop (length ts - c) ts)"
proof -
  from pushes_init_inv [OF assms, of a ts]
  obtain p where p: "pushes (init c a) ts = Inr p" "per_wf p" "capacity p = c"
    "length (memory p) = min (length ts) c" "pos p = length ts mod c"
    "\<forall>j<length ts. length ts - c \<le> j \<longrightarrow> memory p ! (j mod c) = ts ! j"
    by blast
  have small: "memory p = ts" if "length ts \<le> c"
  proof (rule nth_equalityI)
    show "length (memory p) = length ts" using p(4) that by simp
  next
    fix i assume "i < length (memory p)"
    with p(4) that have i: "i < length ts" "i < c" by simp_all
    with p(6) that have "memory p ! (i mod c) = ts ! i" by simp
    with i show "memory p ! i = ts ! i" by simp
  qed
  have big: "rotate (pos p) (memory p) = drop (length ts - c) ts" if "c \<le> length ts"
  proof (rule nth_equalityI)
    show "length (rotate (pos p) (memory p)) = length (drop (length ts - c) ts)"
      using p(4) that by simp
  next
    fix i assume "i < length (rotate (pos p) (memory p))"
    with p(4) that have i: "i < c" by simp
    let ?j = "length ts - c + i"
    have j: "?j < length ts" "length ts - c \<le> ?j" using i that assms by simp_all
    have "(length ts mod c + i) mod c = (length ts + i) mod c"
      by (simp add: mod_add_left_eq)
    also have "length ts + i = ?j + c" using that by simp
    also have "(?j + c) mod c = ?j mod c" by simp
    finally have m: "(length ts mod c + i) mod c = ?j mod c" .
    have "rotate (pos p) (memory p) ! i = memory p ! ((pos p + i) mod length (memory p))"
      using i p(4) that by (simp add: nth_rotate)
    also have "\<dots> = memory p ! (?j mod c)" using p(4,5) that m by simp
    also have "\<dots> = ts ! ?j" using p(6) j by blast
    also have "\<dots> = drop (length ts - c) ts ! i" using that by simp
    finally show "rotate (pos p) (memory p) ! i = drop (length ts - c) ts ! i" .
  qed
  have "pos p < c" using p(5) assms by simp
  with p small big show ?thesis unfolding len_def by blast
qed

theorem push_fifo_witness:
  "(0::nat) < 3
   \<and> (\<exists>p. pushes (init 3 (6 / 10)) [tr 1 False, tr 2 False, tr 3 True, tr 4 False, tr 5 True] = Inr p
        \<and> len p = 3 \<and> pos p = 2
        \<and> memory p = [tr 4 False, tr 5 True, tr 3 True]
        \<and> rotate (pos p) (memory p) = [tr 3 True, tr 4 False, tr 5 True])"
proof -
  let ?L = "[tr 1 False, tr 2 False, tr 3 True, tr 4 False, tr 5 True]"
  have h: "(0::nat) < 3" by simp
  have r3: "replicate 3 (0::real) = [0, 0, 0]" by (simp add: numeral_3_eq_3)
  have ev: "pushes (init 3 (6 / 10)) ?L =
      Inr \<lparr>prob_alpha = 6 / 10, capacity = 3, memory = [tr 4 False, tr 5 True, tr 3 True],
           pos = 2, priorities = [1, 1, 1]\<rparr>"
    by (simp add: init_def push_def np_max_def list_set_def r3)
  from push_fifo [OF h, of "6 / 10" ?L]
  obtain p where p: "pushes (init 3 (6 / 10)) ?L = Inr p"
    "len p = min (length ?L) 3"  "pos p = length ?L mod 3"
    "3 \<le> length ?L \<longrightarrow> rotate (pos p) (memory p) = drop (length ?L - 3) ?L"
    by blast
  from p(1) ev have "memory p = [tr 4 False, tr 5 True, tr 3 True]" by simp
  with p show ?thesis by simp
qed

subsection \<open>C2: the seed priority\<close>

text \<open>
  C2. A push on a well-formed buffer succeeds, stores the transition in slot \<open>pos\<close> and
  writes there the priority \<open>1\<close> when the memory was empty, and otherwise the maximum
  of the priority store before the push; the other priorities are unchanged.
\<close>

theorem push_seed_priority:
  assumes "per_wf p"
  shows "\<exists>p'. push p t = Inr p' \<and> memory p' ! pos p = t
           \<and> priorities p' ! pos p = (if memory p = [] then 1 else Max (set (priorities p)))
           \<and> (\<forall>i<capacity p. i \<noteq> pos p \<longrightarrow> priorities p' ! i = priorities p ! i)"
  unfolding push_wf_eq [OF assms] using assms
  by (auto simp: per_wf_def nth_append)

theorem push_seed_priority_witness:
  "per_wf \<lparr>prob_alpha = 6 / 10, capacity = 3, memory = [tr 1 False], pos = 1, priorities = [5, 0, 0]\<rparr>
   \<and> per_wf (init 3 (6 / 10) :: nat per)
   \<and> (\<exists>p'. push \<lparr>prob_alpha = 6 / 10, capacity = 3, memory = [tr 1 False], pos = 1, priorities = [5, 0, 0]\<rparr> (tr 2 True) = Inr p'
         \<and> memory p' ! 1 = tr 2 True \<and> priorities p' ! 1 = 5)
   \<and> (\<exists>p'. push (init 3 (6 / 10)) (tr 1 False) = Inr p' \<and> memory p' ! 0 = tr 1 False \<and> priorities p' ! 0 = 1)"
proof -
  have h1: "per_wf \<lparr>prob_alpha = 6 / 10, capacity = 3, memory = [tr 1 False], pos = 1, priorities = [5, 0, 0]\<rparr>"
    by (simp add: per_wf_def)
  have h2: "per_wf (init 3 (6 / 10) :: nat per)"
    by (simp add: per_wf_def init_def)
  from push_seed_priority [OF h1, of "tr 2 True"] push_seed_priority [OF h2, of "tr 1 False"]
  show ?thesis using h1 h2 by (auto simp: init_def)
qed

subsection \<open>C8: the beta schedule\<close>

text \<open>
  C8. \<open>beta_by_frame\<close> is \<open>min(1.0, 0.4 + step * (1.0 - 0.4) / 1000)\<close>; it is \<open>0.4\<close> at
  step zero and \<open>1\<close> at step \<open>beta_frames\<close>, it never decreases as the step grows, and it
  is \<open>1\<close> at every step from \<open>beta_frames\<close> on.
\<close>

theorem beta_schedule:
  "beta_by_frame k = min 1 (4 / 10 + real_of_int k * (1 - 4 / 10) / 1000)
   \<and> beta_by_frame 0 = 4 / 10
   \<and> beta_by_frame beta_frames = 1
   \<and> (a \<le> b \<longrightarrow> beta_by_frame a \<le> beta_by_frame b)
   \<and> (beta_frames \<le> n \<longrightarrow> beta_by_frame n = 1)"
proof -
  have mono: "beta_by_frame a \<le> beta_by_frame b" if "a \<le> b"
  proof -
    from that have "real_of_int a \<le> real_of_int b" by simp
    then have "real_of_int a * (1 - 4 / 10) / 1000 \<le> real_of_int b * (1 - 4 / 10) / 1000"
      by simp
    then show ?thesis
      unfolding beta_by_frame_def beta_start_def beta_frames_def by (simp add: min_def)
  qed
  have clamp: "beta_by_frame n = 1" if "beta_frames \<le> n"
  proof -
    from that have "1000 \<le> real_of_int n" unfolding beta_frames_def by simp
    then show ?thesis
      unfolding beta_by_frame_def beta_start_def beta_frames_def by (simp add: min_def)
  qed
  show ?thesis using mono clamp
    by (simp add: beta_by_frame_def beta_start_def beta_frames_def)
qed

theorem beta_schedule_witness:
  "(100::int) \<le> 500 \<and> beta_by_frame 100 \<le> beta_by_frame 500
   \<and> beta_frames \<le> 1500 \<and> beta_by_frame 1500 = 1
   \<and> beta_by_frame 500 = 7 / 10 \<and> beta_by_frame 0 = 4 / 10 \<and> beta_by_frame 1000 = 1"
  using beta_schedule [of 500 100 500 1500]
  by (simp add: beta_frames_def)

subsection \<open>C6: update_priorities on sequences of different lengths\<close>

lemma np_setitem_length: "np_setitem xs i v = Inr ys \<Longrightarrow> length ys = length xs"
  by (auto simp: np_setitem_def split: if_splits)

lemma np_setitem_ok:
  "- int (length xs) \<le> i \<Longrightarrow> i < int (length xs) \<Longrightarrow>
   np_setitem xs i v = Inr (xs[norm_index (length xs) i := v])"
  by (auto simp: np_setitem_def norm_index_def)

lemma update_loop_ok:
  "list_all (\<lambda>(i, r). - int (length prs) \<le> i \<and> i < int (length prs) \<and> r \<noteq> []) pairs \<Longrightarrow>
   update_loop prs pairs =
     Inr (fold (\<lambda>(i, r) a. a[norm_index (length a) i := hd r]) pairs prs)
   \<and> length (fold (\<lambda>(i, r) a. a[norm_index (length a) i := hd r]) pairs prs) = length prs"
proof (induction pairs arbitrary: prs)
  case Nil
  show ?case by simp
next
  case (Cons x pairs)
  obtain i r where x: "x = (i, r)" by (cases x)
  from Cons.prems x have ok: "- int (length prs) \<le> i" "i < int (length prs)" "r \<noteq> []"
    by simp_all
  let ?prs' = "prs[norm_index (length prs) i := hd r]"
  have l: "length ?prs' = length prs" by simp
  from Cons.prems have "list_all (\<lambda>(i, r). - int (length ?prs') \<le> i \<and> i < int (length ?prs') \<and> r \<noteq> []) pairs"
    by simp
  from Cons.IH [OF this] show ?case
    using ok x by (simp add: np_setitem_ok list_get_def hd_conv_nth)
qed

text \<open>
  C6, as the code has it. \<open>update_priorities\<close> walks the zipped pairs: when every pair
  up to the shorter length has an index inside the store and a payload with a first
  entry, the call returns normally, having written those pairs in order; whatever the
  longer sequence holds beyond that is ignored. No length check is made.
\<close>

theorem update_priorities_truncates:
  assumes "list_all (\<lambda>(i, r). - int (length (priorities p)) \<le> i
              \<and> i < int (length (priorities p)) \<and> r \<noteq> []) (zip idxs prios)"
  shows "update_priorities p idxs prios =
           Inr (p\<lparr>priorities := fold (\<lambda>(i, r) a. a[norm_index (length a) i := hd r])
                   (zip (take (min (length idxs) (length prios)) idxs)
                        (take (min (length idxs) (length prios)) prios)) (priorities p)\<rparr>)"
proof -
  have z: "zip (take (min (length idxs) (length prios)) idxs)
               (take (min (length idxs) (length prios)) prios) = zip idxs prios"
    by (simp add: take_zip [symmetric])
  show ?thesis
    unfolding z update_priorities_def using update_loop_ok [OF assms] by simp
qed

theorem update_priorities_truncates_witness:
  "list_all (\<lambda>(i, r). - int (length (priorities buf)) \<le> i
              \<and> i < int (length (priorities buf)) \<and> r \<noteq> []) (zip [1, 0] [[5 :: real, 7]])
   \<and> update_priorities buf [1, 0] [[5, 7]] = Inr (buf\<lparr>priorities := [1, 5, 0]\<rparr>)"
proof -
  have h: "list_all (\<lambda>(i, r). - int (length (priorities buf)) \<le> i
              \<and> i < int (length (priorities buf)) \<and> r \<noteq> []) (zip [1, 0] [[5 :: real, 7]])"
    by (simp add: buf_def)
  from update_priorities_truncates [OF h] show ?thesis
    using h by (simp add: buf_def norm_index_def)
qed

text \<open>
  Two indices and one payload: the call returns normally and only the first pair is
  written.
\<close>

theorem update_priorities_mismatch_counterexample:
  "length [1, 0 :: int] \<noteq> length [[5 :: real, 7]]
   \<and> update_priorities buf [1, 0] [[5, 7]] = Inr (buf\<lparr>priorities := [1, 5, 0]\<rparr>)"
  by (simp add: update_priorities_def buf_def np_setitem_def list_get_def)

subsection \<open>Lists, sums and maxima\<close>

lemma sequence_err_Inr: "sequence_err (map (\<lambda>x. Inr (f x)) xs) = Inr (map f xs)"
  by (induction xs) simp_all

lemma sequence_err_list_get:
  "list_all (\<lambda>i. i < length xs) idxs \<Longrightarrow>
   sequence_err (map (list_get xs) idxs) = Inr (map ((!) xs) idxs)"
  by (induction idxs) (simp_all add: list_get_def)


lemma sample_prios_wf:
  "per_wf p \<Longrightarrow> sample_prios p = meaningful p"
  by (auto simp: sample_prios_def meaningful_def per_wf_def len_def)

lemma length_meaningful: "per_wf p \<Longrightarrow> length (meaningful p) = len p"
  by (simp add: meaningful_def per_wf_def len_def)

lemma those_np_pow_pos_fun:
  "list_all (\<lambda>x. 0 < f x) xs \<Longrightarrow>
   those (map (\<lambda>x. np_pow (f x) a) xs) = Some (map (\<lambda>x. f x powr a) xs)"
  by (induction xs) (simp_all add: np_pow_def)

lemma BATCH_SIZE_pos: "0 < BATCH_SIZE"
  by (simp add: BATCH_SIZE_def)

lemma Max_pos_list:
  fixes w :: "real list"
  assumes "w \<noteq> []" "list_all (\<lambda>x. 0 < x) w"
  shows "0 < Max (set w)"
proof -
  have "Max (set w) \<in> set w" using assms(1) by (intro Max_in) simp_all
  with assms(2) show ?thesis by (simp add: list_all_iff)
qed


subsection \<open>C5: the priorities handed back\<close>

lemma sequence_err_Inr_cong:
  "(\<And>x. x \<in> set xs \<Longrightarrow> g x = Inr (f x)) \<Longrightarrow> sequence_err (map g xs) = Inr (map f xs)"
  by (induction xs) simp_all

lemma t1_op_same:
  "length xs = length ys \<Longrightarrow> t1_op f xs ys = Inr (map (\<lambda>(x, y). f x y) (zip xs ys))"
  unfolding t1_op_def bcast_def
  by (simp add: sequence_err_Inr_cong [where f = "\<lambda>(x, y). f x y"] split_beta)

lemma t1_op_single: "t1_op f [x] ys = Inr (map (f x) ys)"
proof (cases "length ys = 1")
  case True
  then obtain y where "ys = [y]" by (auto simp: length_Suc_conv)
  then show ?thesis by (simp add: t1_op_def bcast_def)
next
  case False
  then have "length [x] \<noteq> length ys" by simp
  then show ?thesis
    unfolding t1_op_def bcast_def by (simp add: sequence_err_Inr)
qed

lemma t2_op_rows:
  assumes "list_all (\<lambda>r. length r = 1) rows"
  shows "t2_op f rows [ws] = Inr (map (\<lambda>r. map (f (hd r)) ws) rows)"
proof -
  have r: "t1_op f r ws = Inr (map (f (hd r)) ws)" if "r \<in> set rows" for r
  proof -
    from that assms have "length r = 1" by (simp add: list_all_iff)
    then obtain x where "r = [x]" by (auto simp: length_Suc_conv)
    then show ?thesis by (simp add: t1_op_single)
  qed
  have s: "sequence_err (map (\<lambda>r. t1_op f r ws) rows) = Inr (map (\<lambda>r. map (f (hd r)) ws) rows)"
    by (rule sequence_err_Inr_cong) (rule r)
  show ?thesis
  proof (cases "length rows = 1")
    case True
    then obtain r where rows: "rows = [r]" by (auto simp: length_Suc_conv)
    with s show ?thesis by (simp add: t2_op_def bcast_def)
  next
    case False
    with s show ?thesis by (simp add: t2_op_def bcast_def)
  qed
qed

lemma t2_op_columns:
  assumes "length q = length e" "list_all (\<lambda>r. length r = 1) q"
  shows "t2_op f q (unsqueeze1 e) = Inr (map (\<lambda>(r, y). [f (hd r) y]) (zip q e))"
proof -
  have z: "map (\<lambda>(x, y). t1_op f x y) (zip q (unsqueeze1 e))
           = map (\<lambda>(r, y). t1_op f r [y]) (zip q e)"
    unfolding unsqueeze1_def by (simp add: zip_map2 case_prod_unfold)
  have le: "length q = length (unsqueeze1 e)" using assms(1) by (simp add: unsqueeze1_def)
  have "sequence_err (map (\<lambda>(r, y). t1_op f r [y]) (zip q e))
        = Inr (map (\<lambda>(r, y). [f (hd r) y]) (zip q e))"
  proof (rule sequence_err_Inr_cong)
    fix x assume x: "x \<in> set (zip q e)"
    obtain r y where xy: "x = (r, y)" by (cases x)
    with x have "r \<in> set q" by (auto dest: set_zip_leftD)
    with assms(2) have "length r = 1" by (simp add: list_all_iff)
    then obtain v where "r = [v]" by (auto simp: length_Suc_conv)
    with xy show "(case x of (r, y) \<Rightarrow> t1_op f r [y]) = Inr (case x of (r, y) \<Rightarrow> [f (hd r) y])"
      by (simp add: t1_op_single)
  qed
  then show ?thesis
    unfolding t2_op_def bcast_def if_P [OF le] z .
qed

lemma td_loss_rows:
  assumes "length q = length e" "list_all (\<lambda>r. length r = 1) q"
  shows "td_loss q e ws = Inr (map (\<lambda>(r, y). map (\<lambda>w. (hd r - y) ^ 2 * w) ws) (zip q e))"
proof -
  let ?sq = "map (map (\<lambda>x. x ^ 2)) (map (\<lambda>(r, y). [hd r - y]) (zip q e))"
  have "list_all (\<lambda>r. length r = 1) ?sq" by (simp add: list_all_iff split_beta)
  from t2_op_rows [OF this, of "(*)" ws]
  have "t2_op (*) ?sq [ws] = Inr (map (\<lambda>(r, y). map (\<lambda>w. (hd r - y) ^ 2 * w) ws) (zip q e))"
    by (simp add: o_def split_beta)
  then show ?thesis
    unfolding td_loss_def t2_op_columns [OF assms] by simp
qed

lemma td_prios_first:
  assumes "length q = length e" "list_all (\<lambda>r. length r = 1) q" "ws \<noteq> []" "i < length q"
    and "td_loss q e ws = Inr loss"
  shows "hd (td_prios loss ! i) = (hd (q ! i) - e ! i) ^ 2 * hd ws + 1 / 100000"
proof -
  from assms(5) td_loss_rows [OF assms(1,2), of ws]
  have "loss = map (\<lambda>(r, y). map (\<lambda>w. (hd r - y) ^ 2 * w) ws) (zip q e)" by simp
  with assms(1,3,4) show ?thesis
    by (simp add: td_prios_def hd_map)
qed

text \<open>
  C5, as the code has it. With \<open>q_value\<close> of shape (n, 1), \<open>expected_q_value\<close> and the
  weights of shape (n), the loss of line 253 is the squared error times the importance
  weights, and \<open>prios\<close> is that weighted loss plus \<open>1e-5\<close>. Row \<open>i\<close> of \<open>prios\<close> holds the
  squared error of sample \<open>i\<close> times each weight of the batch, plus \<open>1e-5\<close>; the
  priority read from it by \<open>update_priorities\<close>, its first entry, is the squared error
  times an importance weight of the batch, plus \<open>1e-5\<close>.
\<close>

theorem priority_from_weighted_loss:
  assumes "length q_value = length expected" "list_all (\<lambda>r. length r = 1) q_value"
    and "ws \<noteq> []" "i < length q_value"
  shows "\<exists>loss. td_loss q_value expected ws = Inr loss
           \<and> length (td_prios loss) = length q_value
           \<and> td_prios loss ! i =
               map (\<lambda>w. (hd (q_value ! i) - expected ! i) ^ 2 * w + 1 / 100000) ws
           \<and> (\<exists>w \<in> set ws.
                 hd (td_prios loss ! i) = (hd (q_value ! i) - expected ! i) ^ 2 * w + 1 / 100000)"
proof -
  let ?loss = "map (\<lambda>(r, y). map (\<lambda>w. (hd r - y) ^ 2 * w) ws) (zip q_value expected)"
  have l: "td_loss q_value expected ws = Inr ?loss" by (rule td_loss_rows [OF assms(1,2)])
  have n: "length (td_prios ?loss) = length q_value" using assms(1) by (simp add: td_prios_def)
  have row: "td_prios ?loss ! i =
      map (\<lambda>w. (hd (q_value ! i) - expected ! i) ^ 2 * w + 1 / 100000) ws"
    using assms(1,4) by (simp add: td_prios_def o_def)
  have "hd (td_prios ?loss ! i) = (hd (q_value ! i) - expected ! i) ^ 2 * hd ws + 1 / 100000"
    by (rule td_prios_first [OF assms l])
  moreover have "hd ws \<in> set ws" using assms(3) by simp
  ultimately show ?thesis using l n row by blast
qed

theorem priority_from_weighted_loss_witness:
  "length (replicate 32 [3 :: real]) = length (replicate 32 (1 :: real))
   \<and> list_all (\<lambda>r. length r = 1) (replicate 32 [3 :: real])
   \<and> (1 / 2 # replicate 31 (1 :: real)) \<noteq> []
   \<and> 0 < length (replicate 32 [3 :: real])
   \<and> (\<exists>loss. td_loss (replicate 32 [3]) (replicate 32 1) (1 / 2 # replicate 31 1) = Inr loss
          \<and> length (td_prios loss) = 32
          \<and> td_prios loss ! 0 = (2 + 1 / 100000) # replicate 31 (4 + 1 / 100000)
          \<and> hd (td_prios loss ! 0) = 4 * (1 / 2) + 1 / 100000)"
proof -
  have h: "length (replicate 32 [3 :: real]) = length (replicate 32 (1 :: real))"
    "list_all (\<lambda>r. length r = 1) (replicate 32 [3 :: real])"
    "(1 / 2 # replicate 31 (1 :: real)) \<noteq> []"
    "0 < length (replicate 32 [3 :: real])"
    by (simp_all add: list_all_iff)
  from priority_from_weighted_loss [OF h]
  obtain loss where l: "td_loss (replicate 32 [3]) (replicate 32 1) (1 / 2 # replicate 31 1) = Inr loss"
    "length (td_prios loss) = length (replicate 32 [3 :: real])"
    "td_prios loss ! 0 = map (\<lambda>w. (hd (replicate 32 [3] ! 0) - replicate 32 1 ! 0) ^ 2 * w + 1 / 100000)
        (1 / 2 # replicate 31 1)"
    by blast
  from l(3) have r: "td_prios loss ! 0 = (2 + 1 / 100000) # replicate 31 (4 + 1 / 100000)"
    by simp
  from l(1,2) r h show ?thesis by simp
qed

text \<open>
  A batch with squared error 4 everywhere and a first weight of one half: the priority
  handed back for the first sample is \<open>2 + 1e-5\<close>, not the un-weighted \<open>4 + 1e-5\<close>.
\<close>

theorem priority_unweighted_counterexample:
  "td_loss (replicate 32 [3]) (replicate 32 1) (1 / 2 # replicate 31 1)
     = Inr (replicate 32 (2 # replicate 31 4))
   \<and> hd (td_prios (replicate 32 (2 # replicate 31 4)) ! 0)
       \<noteq> (hd (replicate 32 [3] ! 0) - replicate 32 1 ! 0) ^ 2 + 1 / 100000"
proof -
  have h: "length (replicate 32 [3 :: real]) = length (replicate 32 (1 :: real))"
    "list_all (\<lambda>r. length r = 1) (replicate 32 [3 :: real])"
    by (simp_all add: list_all_iff)
  have "td_loss (replicate 32 [3]) (replicate 32 1) (1 / 2 # replicate 31 1)
     = Inr (replicate 32 (2 # replicate 31 4))"
    unfolding td_loss_rows [OF h] by simp
  then show ?thesis by (simp add: td_prios_def)
qed

subsection \<open>Facts about the training step\<close>

lemma length_non_final:
  "length (non_final ns) = length (filter (\<lambda>b. b) (map (\<lambda>s. s \<noteq> None) ns))"
  by (simp add: non_final_def filter_map o_def)

lemma scatter_non_final:
  "length ns = n \<Longrightarrow>
   scatter (replicate n 0) (map (\<lambda>s. s \<noteq> None) ns) (map g (non_final ns))
     = map (\<lambda>s. case s of None \<Rightarrow> 0 | Some x \<Rightarrow> g x) ns"
proof (induction ns arbitrary: n)
  case Nil
  then show ?case by (simp add: non_final_def)
next
  case (Cons s ns)
  then obtain m where m: "n = Suc m" "length ns = m" by (cases n) auto
  from Cons.IH [OF m(2)] show ?case
    unfolding m(1) by (cases s) (simp_all add: non_final_def)
qed

lemma row_max_ok:
  "list_all (\<lambda>s. tn s \<noteq> []) nfs \<Longrightarrow>
   row_max (map tn nfs) = Inr (map (\<lambda>s. Max (set (tn s))) nfs)"
  unfolding row_max_def map_map
  by (rule sequence_err_Inr_cong) (simp add: list_all_iff)

lemma expected_q_value_cong:
  assumes "map tn' (non_final ns) = map tn (non_final ns)"
  shows "expected_q_value tn' ns r = expected_q_value tn ns r"
proof (cases "non_final ns = []")
  case True
  then show ?thesis by (simp add: expected_q_value_def torch_cat_def)
next
  case False
  then have c: "torch_cat (non_final ns) = Inr (non_final ns)" by (simp add: torch_cat_def)
  show ?thesis unfolding expected_q_value_def Let_def c ebind_Inr assms ..
qed

lemma expected_q_value_eq:
  assumes "length next_st = BATCH_SIZE" "length rewardv = BATCH_SIZE"
    and "non_final next_st \<noteq> []"
    and "list_all (\<lambda>s. target_net s \<noteq> []) (non_final next_st)"
  shows "expected_q_value target_net next_st rewardv =
           Inr (map (\<lambda>(ns, r). case ns of None \<Rightarrow> r
                                | Some s \<Rightarrow> r + GAMMA * Max (set (target_net s)))
                  (zip next_st rewardv))"
proof -
  let ?g = "\<lambda>s. Max (set (target_net s))"
  let ?nq = "map (\<lambda>s. case s of None \<Rightarrow> 0 | Some x \<Rightarrow> ?g x) next_st"
  have c: "torch_cat (non_final next_st) = Inr (non_final next_st)"
    using assms(3) by (simp add: torch_cat_def)
  have rm: "row_max (map target_net (non_final next_st)) = Inr (map ?g (non_final next_st))"
    by (rule row_max_ok [OF assms(4)])
  have ma: "masked_assign (replicate BATCH_SIZE 0) (map (\<lambda>s. s \<noteq> None) next_st)
              (map ?g (non_final next_st)) = Inr ?nq"
    using assms(1) scatter_non_final [OF assms(1), of ?g]
    by (simp add: masked_assign_def Let_def length_non_final)
  have le: "length (map (\<lambda>x. x * GAMMA) ?nq) = length rewardv" using assms(1,2) by simp
  have ad: "t1_op (+) (map (\<lambda>x. x * GAMMA) ?nq) rewardv =
      Inr (map (\<lambda>(ns, r). case ns of None \<Rightarrow> r | Some s \<Rightarrow> r + GAMMA * ?g s) (zip next_st rewardv))"
    unfolding t1_op_same [OF le]
    by (auto simp: zip_map1 split_beta mult.commute split: option.splits)
  show ?thesis
    unfolding expected_q_value_def Let_def c ebind_Inr rm ma by (rule ad)
qed

lemma Max_ones_zeros:
  "0 < n \<Longrightarrow> Max (set (replicate n (1::real) @ replicate m 0)) = 1"
  by (cases "m = 0") simp_all

lemma pushes_init_small:
  assumes "0 < c" "length ts \<le> c"
  shows "pushes (init c a) ts =
     Inr \<lparr>prob_alpha = a, capacity = c, memory = ts, pos = length ts mod c,
          priorities = replicate (length ts) 1 @ replicate (c - length ts) 0\<rparr>"
  using assms(2)
proof (induction ts rule: rev_induct)
  case Nil
  show ?case by (simp add: init_def)
next
  case (snoc t ts)
  let ?p = "\<lparr>prob_alpha = a, capacity = c, memory = ts, pos = length ts mod c,
          priorities = replicate (length ts) 1 @ replicate (c - length ts) 0\<rparr>"
  from snoc have ih: "pushes (init c a) ts = Inr ?p" and lt: "length ts < c" by simp_all
  have wf: "per_wf ?p" using lt by (simp add: per_wf_def)
  have r: "replicate (c - length ts) (0::real) = 0 # replicate (c - Suc (length ts)) 0"
    using lt by (cases "c - length ts") (simp_all add: Suc_diff_Suc)
  have u: "(replicate (length ts) (1::real) @ replicate (c - length ts) 0)[length ts := 1]
      = replicate (Suc (length ts)) 1 @ replicate (c - Suc (length ts)) 0"
    unfolding r by (simp add: list_update_append replicate_append_same)
  have u0: "(replicate c (0::real))[0 := 1] = 1 # replicate (c - Suc 0) 0"
    using assms(1) by (cases c) simp_all
  have mx: "ts \<noteq> [] \<Longrightarrow> Max (set (replicate (length ts) (1::real) @ replicate (c - length ts) 0)) = 1"
    by (rule Max_ones_zeros) simp
  have e: "push ?p t =
     Inr \<lparr>prob_alpha = a, capacity = c, memory = ts @ [t], pos = length (ts @ [t]) mod c,
          priorities = replicate (length (ts @ [t])) 1 @ replicate (c - length (ts @ [t])) 0\<rparr>"
    unfolding push_wf_eq [OF wf] using lt mx u u0 by (simp add: mod_Suc)
  show ?case
    unfolding pushes_append ih ebind_Inr pushes.simps e ..
qed












lemma sequence_err_replicate: "sequence_err (replicate n (Inr x)) = Inr (replicate n x)"
  by (induction n) simp_all

subsection \<open>The draw by inverse transform\<close>

lemma length_cumsum: "length (cumsum xs) = length xs"
  by (simp add: cumsum_def)

lemma cumsum_nth: "k < length xs \<Longrightarrow> cumsum xs ! k = cum xs (Suc k)"
  by (simp add: cumsum_def cum_def)

lemma cum_all: "length ps \<le> k \<Longrightarrow> cum ps k = sum_list ps"
  by (simp add: cum_def)

lemma cum_Suc: "k < length ps \<Longrightarrow> cum ps (Suc k) = cum ps k + ps ! k"
  by (simp add: cum_def take_Suc_conv_app_nth)

lemma cum_step: "list_all (\<lambda>x. 0 \<le> x) ps \<Longrightarrow> cum ps k \<le> cum ps (Suc k)"
proof (cases "k < length ps")
  case True
  assume "list_all (\<lambda>x. 0 \<le> x) ps"
  with True have "0 \<le> ps ! k" by (simp add: list_all_length)
  with True show ?thesis by (simp add: cum_Suc)
next
  case False
  then show ?thesis by (simp add: cum_all)
qed

lemma cum_mono: "list_all (\<lambda>x. 0 \<le> x) ps \<Longrightarrow> a \<le> b \<Longrightarrow> cum ps a \<le> cum ps b"
  by (rule lift_Suc_mono_le [of "cum ps"]) (simp_all add: cum_step)

lemma last_cumsum: "xs \<noteq> [] \<Longrightarrow> last (cumsum xs) = sum_list xs"
proof -
  assume ne: "xs \<noteq> []"
  then have "cumsum xs \<noteq> []" using length_cumsum [of xs] by auto
  then have "last (cumsum xs) = cumsum xs ! (length xs - 1)"
    by (simp add: last_conv_nth length_cumsum)
  also have "\<dots> = cum xs (Suc (length xs - 1))" using ne by (intro cumsum_nth) simp
  also have "\<dots> = sum_list xs" using ne by (simp add: cum_all)
  finally show ?thesis .
qed

lemma cdf_normalised:
  "xs \<noteq> [] \<Longrightarrow> sum_list xs = 1 \<Longrightarrow> map (\<lambda>c. c / last (cumsum xs)) (cumsum xs) = cumsum xs"
  by (simp add: last_cumsum)

lemma takeWhile_length_le:
  assumes "j < length xs" "\<not> P (xs ! j)"
  shows "length (takeWhile P xs) \<le> j"
proof (rule ccontr)
  assume "\<not> length (takeWhile P xs) \<le> j"
  then have j: "j < length (takeWhile P xs)" by simp
  then have "takeWhile P xs ! j \<in> set (takeWhile P xs)" by simp
  then have "P (takeWhile P xs ! j)" by (auto dest: set_takeWhileD)
  with j assms(2) show False by (simp add: takeWhile_nth)
qed

lemma searchsorted_bracket:
  assumes ne: "ps \<noteq> []" and nn: "list_all (\<lambda>x. 0 \<le> x) ps" and one: "sum_list ps = 1"
    and u: "0 \<le> u" "u < 1"
  shows "searchsorted_right (cumsum ps) u < length ps
         \<and> cum ps (searchsorted_right (cumsum ps) u) \<le> u
         \<and> u < cum ps (Suc (searchsorted_right (cumsum ps) u))
         \<and> 0 < ps ! searchsorted_right (cumsum ps) u"
proof -
  let ?P = "\<lambda>c. c \<le> u"
  let ?k = "searchsorted_right (cumsum ps) u"
  have k: "?k = length (takeWhile ?P (cumsum ps))" by (simp add: searchsorted_right_def)
  have lastn: "\<not> ?P (cumsum ps ! (length ps - 1))"
    using ne one u(2) by (simp add: cumsum_nth cum_all)
  have "?k \<le> length ps - 1"
    unfolding k using ne lastn by (intro takeWhile_length_le) (simp_all add: length_cumsum)
  with ne have lt: "?k < length ps" by (cases ps) simp_all
  then have "?k < length (cumsum ps)" by (simp add: length_cumsum)
  then have "\<not> ?P (cumsum ps ! ?k)" unfolding k by (rule nth_length_takeWhile)
  with lt have hi: "u < cum ps (Suc ?k)" by (simp add: cumsum_nth)
  have lo: "cum ps ?k \<le> u"
  proof (cases ?k)
    case 0
    with u(1) show ?thesis by (simp add: cum_def)
  next
    case (Suc j)
    then have j: "j < length (takeWhile ?P (cumsum ps))" using k by simp
    then have "takeWhile ?P (cumsum ps) ! j \<in> set (takeWhile ?P (cumsum ps))" by simp
    then have "?P (takeWhile ?P (cumsum ps) ! j)" by (auto dest: set_takeWhileD)
    then have "cumsum ps ! j \<le> u" using j by (simp add: takeWhile_nth)
    moreover have "j < length ps" using lt Suc by simp
    ultimately show ?thesis using Suc by (simp add: cumsum_nth)
  qed
  from lo hi lt have "0 < ps ! ?k" by (simp add: cum_Suc)
  with lt lo hi show ?thesis by simp
qed

lemma searchsorted_unique:
  assumes nn: "list_all (\<lambda>x. 0 \<le> x) ps" and k: "k < length ps"
    and lo: "cum ps k \<le> u" and hi: "u < cum ps (Suc k)"
  shows "searchsorted_right (cumsum ps) u = k"
proof -
  have "takeWhile (\<lambda>c. c \<le> u) (cumsum ps) = take k (cumsum ps)"
  proof (rule takeWhile_eq_take_P_nth)
    fix i assume i: "i < k" "i < length (cumsum ps)"
    then have "cumsum ps ! i = cum ps (Suc i)" by (simp add: cumsum_nth length_cumsum)
    also have "\<dots> \<le> cum ps k" using i(1) by (intro cum_mono [OF nn]) simp
    finally show "cumsum ps ! i \<le> u" using lo by simp
  next
    assume "k < length (cumsum ps)"
    then show "\<not> cumsum ps ! k \<le> u" using hi by (simp add: cumsum_nth length_cumsum)
  qed
  then show ?thesis using k by (simp add: searchsorted_right_def length_cumsum)
qed

lemma np_random_choice_ok:
  assumes "ps \<noteq> []" "list_all (\<lambda>x. 0 \<le> x) ps" "sum_list ps = 1"
  shows "np_random_choice rng (length ps) k ps =
           Inr (map (\<lambda>i. searchsorted_right (cumsum ps) (rng i)) [0..<k])"
  using assms by (simp add: np_random_choice_def Let_def last_cumsum)

subsection \<open>What sample computes\<close>

lemma those_length: "those (map f xs) = Some ys \<Longrightarrow> length ys = length xs"
  by (induction xs arbitrary: ys) (auto split: option.splits)

lemma those_map_Some:
  "(\<And>x. x \<in> set xs \<Longrightarrow> f x = Some (g x)) \<Longrightarrow> those (map f xs) = Some (map g xs)"
  by (induction xs) simp_all





lemma sample_probs_wf:
  assumes "per_wf p"
  shows "sample_probs p =
     (case those (map (\<lambda>x. np_pow x (prob_alpha p)) (meaningful p)) of
        None \<Rightarrow> None
      | Some v \<Rightarrow> if sum_list v = 0 then None else Some (normalise v))"
  by (simp add: sample_probs_def sample_prios_wf [OF assms] normalise_def split: option.splits)



lemma sample_ok:
  fixes p :: "'a per"
  assumes sp: "sample_probs p = Some probs" and ne: "memory p \<noteq> []"
    and len: "length probs = length (memory p)"
    and nn: "list_all (\<lambda>x. 0 \<le> x) probs" and one: "sum_list probs = 1"
    and rng: "\<forall>i<BATCH_SIZE. 0 \<le> rng i \<and> rng i < 1"
    and idxs: "idxs = map (\<lambda>i. searchsorted_right (cumsum probs) (rng i)) [0..<BATCH_SIZE]"
  shows "sample f32 p beta rng =
     Inr \<lparr>states = map (\<lambda>i. state (memory p ! i)) idxs,
          actions = map (\<lambda>i. action (memory p ! i)) idxs,
          rewards = map (\<lambda>i. reward (memory p ! i)) idxs,
          next_states = map (\<lambda>i. next_state (memory p ! i)) idxs,
          dones = map (\<lambda>i. done_flag (memory p ! i)) idxs,
          indices = idxs,
          weights = map f32 (spec_weights (len p) probs beta idxs)\<rparr>"
    and "list_all (\<lambda>i. i < length (memory p) \<and> 0 < probs ! i) idxs"
    and "length idxs = BATCH_SIZE"
proof -
  let ?n = "length (memory p)"
  let ?w = "map (\<lambda>i. (real ?n * probs ! i) powr (- beta)) idxs"
  from ne len have pne: "probs \<noteq> []" by auto
  have ch: "np_random_choice rng ?n BATCH_SIZE probs = Inr idxs"
    unfolding idxs len [symmetric] by (rule np_random_choice_ok [OF pne nn one])
  show il: "length idxs = BATCH_SIZE" by (simp add: idxs)
  show ir: "list_all (\<lambda>i. i < ?n \<and> 0 < probs ! i) idxs"
    unfolding idxs list_all_iff
  proof
    fix k assume "k \<in> set (map (\<lambda>i. searchsorted_right (cumsum probs) (rng i)) [0..<BATCH_SIZE])"
    then obtain i where i: "i < BATCH_SIZE" and k: "k = searchsorted_right (cumsum probs) (rng i)"
      by auto
    from rng i have "0 \<le> rng i" "rng i < 1" by simp_all
    from searchsorted_bracket [OF pne nn one this] show "k < ?n \<and> 0 < probs ! k"
      by (simp add: k len)
  qed
  have ine: "idxs \<noteq> []" using il BATCH_SIZE_pos by auto
  have g1: "sequence_err (map (list_get probs) idxs) = Inr (map ((!) probs) idxs)"
    using ir len by (intro sequence_err_list_get) (simp add: list_all_iff)
  have "list_all (\<lambda>x. 0 < real ?n * x) (map ((!) probs) idxs)"
    using ir ne by (auto simp: list_all_iff)
  from those_np_pow_pos_fun [OF this, of "- beta"]
  have g2: "those (map (\<lambda>x. np_pow (real ?n * x) (- beta)) (map ((!) probs) idxs)) = Some ?w"
    by (simp add: o_def)
  have wne: "?w \<noteq> []" using ine by simp
  have wpos: "list_all (\<lambda>x. 0 < x) ?w" using ir ne by (auto simp: list_all_iff)
  have g3: "np_max ?w = Inr (Max (set ?w))" using wne by (simp add: np_max_def)
  have g4: "Max (set ?w) \<noteq> 0" using Max_pos_list [OF wne wpos] by simp
  have g5: "sequence_err (map (list_get (memory p)) idxs) = Inr (map ((!) (memory p)) idxs)"
    using ir by (intro sequence_err_list_get) (simp add: list_all_iff)
  have g6: "torch_cat (map f (map ((!) (memory p)) idxs)) = Inr (map (\<lambda>i. f (memory p ! i)) idxs)"
    for f :: "'a transition \<Rightarrow> 'b"
    using ine by (simp add: torch_cat_def o_def)
  show "sample f32 p beta rng =
     Inr \<lparr>states = map (\<lambda>i. state (memory p ! i)) idxs,
          actions = map (\<lambda>i. action (memory p ! i)) idxs,
          rewards = map (\<lambda>i. reward (memory p ! i)) idxs,
          next_states = map (\<lambda>i. next_state (memory p ! i)) idxs,
          dones = map (\<lambda>i. done_flag (memory p ! i)) idxs,
          indices = idxs,
          weights = map f32 (spec_weights (len p) probs beta idxs)\<rparr>"
    unfolding sample_def sp option.case ch ebind_Inr Let_def g1 g2 g3 if_not_P [OF g4] g5 g6
    by (simp add: spec_weights_def len_def o_def)
qed

lemma sample_Inr_D:
  assumes "sample f32 p beta rng = Inr b"
  shows "\<exists>probs. sample_probs p = Some probs \<and> memory p \<noteq> []
           \<and> length probs = length (memory p)
           \<and> list_all (\<lambda>x. 0 \<le> x) probs \<and> sum_list probs = 1
           \<and> indices b = map (\<lambda>i. searchsorted_right (cumsum probs) (rng i)) [0..<BATCH_SIZE]
           \<and> list_all (\<lambda>i. i < length (memory p)) (indices b)"
proof -
  from assms obtain probs where sp: "sample_probs p = Some probs"
    by (auto simp: sample_def split: option.splits)
  from assms obtain idxs trs where
    ch: "np_random_choice rng (length (memory p)) BATCH_SIZE probs = Inr idxs"
    and tr: "sequence_err (map (list_get (memory p)) idxs) = Inr trs"
    and ib: "indices b = idxs"
    unfolding sample_def sp
    by (auto simp: Let_def ebind_eq_Inr split: if_splits option.splits)
  from ch have v: "length (memory p) \<noteq> 0" "length probs = length (memory p)"
    "list_all (\<lambda>x. 0 \<le> x) probs" "sum_list probs = 1"
    by (auto simp: np_random_choice_def split: if_splits)
  then have pne: "probs \<noteq> []" by auto
  from ch have i: "idxs = map (\<lambda>i. searchsorted_right (cumsum probs) (rng i)) [0..<BATCH_SIZE]"
    unfolding v(2) [symmetric] np_random_choice_ok [OF pne v(3,4)] by simp
  have "list_all (\<lambda>i. i < length (memory p)) idxs"
    unfolding list_all_iff
  proof
    fix k assume k: "k \<in> set idxs"
    show "k < length (memory p)"
    proof (rule ccontr)
      assume "\<not> k < length (memory p)"
      then have "list_get (memory p) k = Inl IndexError" by (simp add: list_get_def)
      with k have "Inl IndexError \<in> set (map (list_get (memory p)) idxs)" by force
      then have "\<exists>e. sequence_err (map (list_get (memory p)) idxs) = Inl e"
        by (induction idxs) (auto simp: ebind_def split: sum.splits)
      with tr show False by simp
    qed
  qed
  with sp v i ib show ?thesis by auto
qed

subsection \<open>C3: the sampled batch\<close>

lemma uniform_samplesD: "uniform_samples rng k \<Longrightarrow> i < k \<Longrightarrow> 0 \<le> rng i \<and> rng i < 1"
  by (simp add: uniform_samples_def list_all_iff)









subsection \<open>C4: the sampling distribution\<close>

lemma sample_draws:
  assumes wf: "per_wf p" and rng: "uniform_samples rng BATCH_SIZE"
    and s: "sample f32 p beta rng = Inr b"
  shows "\<exists>v. those (map (\<lambda>x. np_pow x (prob_alpha p)) (meaningful p)) = Some v
           \<and> length v = len p \<and> sum_list v \<noteq> 0
           \<and> sample_probs p = Some (normalise v)
           \<and> list_all (\<lambda>q. 0 \<le> q) (normalise v) \<and> sum_list (normalise v) = 1
           \<and> length (indices b) = BATCH_SIZE
           \<and> (\<forall>i<BATCH_SIZE. indices b ! i < len p
                 \<and> (\<forall>k<len p. indices b ! i = k \<longleftrightarrow>
                        cum (normalise v) k \<le> rng i
                        \<and> rng i < cum (normalise v) k + normalise v ! k))
           \<and> (prob_alpha p = 0 \<longrightarrow> normalise v = replicate (len p) (1 / real (len p)))"
proof -
  from sample_Inr_D [OF s] obtain probs where
    sp: "sample_probs p = Some probs" and ne: "memory p \<noteq> []"
    and len: "length probs = length (memory p)"
    and nn: "list_all (\<lambda>x. 0 \<le> x) probs" and one: "sum_list probs = 1"
    and ib: "indices b = map (\<lambda>i. searchsorted_right (cumsum probs) (rng i)) [0..<BATCH_SIZE]"
    by blast
  from sp obtain v where
    v: "those (map (\<lambda>x. np_pow x (prob_alpha p)) (meaningful p)) = Some v"
    and sv: "sum_list v \<noteq> 0" and pv: "probs = normalise v"
    unfolding sample_probs_wf [OF wf] by (auto split: option.splits if_splits)
  have lv: "length v = len p" using those_length [OF v] length_meaningful [OF wf] by simp
  from ne len have pne: "probs \<noteq> []" by auto
  have draws: "indices b ! i < len p
      \<and> (\<forall>k<len p. indices b ! i = k \<longleftrightarrow> cum probs k \<le> rng i \<and> rng i < cum probs k + probs ! k)"
    if i: "i < BATCH_SIZE" for i
  proof -
    let ?d = "searchsorted_right (cumsum probs) (rng i)"
    from uniform_samplesD [OF rng i] have u: "0 \<le> rng i" "rng i < 1" by simp_all
    from i have d: "indices b ! i = ?d" by (simp add: ib)
    note br = searchsorted_bracket [OF pne nn one u]
    have "?d = k \<longleftrightarrow> cum probs k \<le> rng i \<and> rng i < cum probs k + probs ! k"
      if k: "k < len p" for k
    proof
      assume "?d = k"
      with br k len show "cum probs k \<le> rng i \<and> rng i < cum probs k + probs ! k"
        by (auto simp: cum_Suc len_def)
    next
      assume a: "cum probs k \<le> rng i \<and> rng i < cum probs k + probs ! k"
      from k len have kl: "k < length probs" by (simp add: len_def)
      from a kl have "rng i < cum probs (Suc k)" by (simp add: cum_Suc)
      with a show "?d = k" by (intro searchsorted_unique [OF nn kl]) simp_all
    qed
    with br len show ?thesis by (simp add: d len_def)
  qed
  have uni: "normalise v = replicate (len p) (1 / real (len p))" if a0: "prob_alpha p = 0"
  proof -
    have "those (map (\<lambda>x. np_pow x (prob_alpha p)) (meaningful p))
            = Some (map (\<lambda>x. 1) (meaningful p))"
      by (rule those_map_Some) (simp add: np_pow_def a0)
    with v have "v = replicate (len p) 1"
      using length_meaningful [OF wf] by (simp add: map_replicate_const)
    then show ?thesis by (simp add: normalise_def sum_list_replicate)
  qed
  have il: "length (indices b) = BATCH_SIZE" by (simp add: ib)
  from v lv sv sp nn one il draws uni show ?thesis
    unfolding pv by (intro exI [of _ v]) blast
qed

lemma sample_uniform_returns:
  assumes wf: "per_wf p" and rng: "uniform_samples rng BATCH_SIZE"
    and a0: "prob_alpha p = 0" and ne: "memory p \<noteq> []"
  shows "\<exists>b. sample f32 p beta rng = Inr b"
    and "sample_probs p = Some (replicate (len p) (1 / real (len p)))"
proof -
  let ?probs = "replicate (len p) (1 / real (len p))"
  have t: "those (map (\<lambda>x. np_pow x (prob_alpha p)) (meaningful p))
            = Some (map (\<lambda>x. 1) (meaningful p))"
    by (rule those_map_Some) (simp add: np_pow_def a0)
  have n0: "0 < len p" using ne by (simp add: len_def)
  show sp: "sample_probs p = Some ?probs"
    unfolding sample_probs_wf [OF wf] t using n0 length_meaningful [OF wf]
    by (simp add: normalise_def map_replicate_const sum_list_replicate)
  have len: "length ?probs = length (memory p)" by (simp add: len_def)
  have nn: "list_all (\<lambda>x. 0 \<le> x) ?probs" by (simp add: list_all_iff)
  have one: "sum_list ?probs = 1" using n0 by (simp add: sum_list_replicate)
  have r: "\<forall>i<BATCH_SIZE. 0 \<le> rng i \<and> rng i < 1" using uniform_samplesD [OF rng] by blast
  from sample_ok(1) [OF sp ne len nn one r refl, of f32 beta]
  show "\<exists>b. sample f32 p beta rng = Inr b" by blast
qed

text \<open>
  C4. On a well-formed buffer, whenever \<open>sample\<close> returns, the vector it hands to
  \<open>np.random.choice\<close> is the first \<open>size\<close> priorities raised to \<open>alpha\<close> and divided by
  their sum: its entries are non-negative and sum to one. Draw number \<open>i\<close> is the index
  \<open>k\<close> exactly when the uniform sample \<open>rng i\<close> falls into the interval of length
  \<open>probs[k]\<close> that starts at the sum of the entries before \<open>k\<close>, so an index is drawn
  with the probability the vector gives it, and the draws are as independent as the
  uniform samples are. With \<open>alpha = 0\<close> the vector is uniform over the stored slots, and
  then \<open>sample\<close> returns on every non-empty buffer, whatever the priorities are.
\<close>

theorem sample_distribution:
  assumes wf: "per_wf p" and rng: "uniform_samples rng BATCH_SIZE"
  shows "(sample f32 p beta rng = Inr b \<longrightarrow>
           (\<exists>v. those (map (\<lambda>x. np_pow x (prob_alpha p)) (meaningful p)) = Some v
              \<and> length v = len p \<and> sum_list v \<noteq> 0
              \<and> sample_probs p = Some (normalise v)
              \<and> list_all (\<lambda>q. 0 \<le> q) (normalise v) \<and> sum_list (normalise v) = 1
              \<and> length (indices b) = BATCH_SIZE
              \<and> (\<forall>i<BATCH_SIZE. indices b ! i < len p
                    \<and> (\<forall>k<len p. indices b ! i = k \<longleftrightarrow>
                           cum (normalise v) k \<le> rng i
                           \<and> rng i < cum (normalise v) k + normalise v ! k))
              \<and> (prob_alpha p = 0 \<longrightarrow> normalise v = replicate (len p) (1 / real (len p)))))
       \<and> (prob_alpha p = 0 \<and> memory p \<noteq> [] \<longrightarrow>
            (\<exists>b'. sample f32 p beta rng = Inr b')
            \<and> sample_probs p = Some (replicate (len p) (1 / real (len p))))"
proof (intro conjI impI)
  assume "sample f32 p beta rng = Inr b"
  then show "\<exists>v. those (map (\<lambda>x. np_pow x (prob_alpha p)) (meaningful p)) = Some v
              \<and> length v = len p \<and> sum_list v \<noteq> 0
              \<and> sample_probs p = Some (normalise v)
              \<and> list_all (\<lambda>q. 0 \<le> q) (normalise v) \<and> sum_list (normalise v) = 1
              \<and> length (indices b) = BATCH_SIZE
              \<and> (\<forall>i<BATCH_SIZE. indices b ! i < len p
                    \<and> (\<forall>k<len p. indices b ! i = k \<longleftrightarrow>
                           cum (normalise v) k \<le> rng i
                           \<and> rng i < cum (normalise v) k + normalise v ! k))
              \<and> (prob_alpha p = 0 \<longrightarrow> normalise v = replicate (len p) (1 / real (len p)))"
    by (rule sample_draws [OF wf rng])
next
  assume a: "prob_alpha p = 0 \<and> memory p \<noteq> []"
  then show "\<exists>b'. sample f32 p beta rng = Inr b'"
    using sample_uniform_returns(1) [OF wf rng] by blast
next
  assume a: "prob_alpha p = 0 \<and> memory p \<noteq> []"
  then show "sample_probs p = Some (replicate (len p) (1 / real (len p)))"
    using sample_uniform_returns(2) [OF wf rng] by blast
qed

text \<open>
  The statement of C4 at a buffer of two transitions with the priorities 5 and 1: for
  \<open>alpha = 1\<close> the distribution is 5/6, 1/6, and the uniform samples 1/2 and 9/10 draw
  the indices 0 and 1; for \<open>alpha = 0\<close> it is 1/2, 1/2, and the uniform sample 1/2 draws
  the index 1.
\<close>

theorem sample_distribution_witness:
  "per_wf (buf\<lparr>prob_alpha := 1, priorities := [5, 1, 0]\<rparr>)
   \<and> uniform_samples (\<lambda>i. if i < 16 then 1 / 2 else 9 / 10) BATCH_SIZE
   \<and> (\<exists>b. sample (\<lambda>x. x) (buf\<lparr>prob_alpha := 1, priorities := [5, 1, 0]\<rparr>) 1
              (\<lambda>i. if i < 16 then 1 / 2 else 9 / 10) = Inr b
          \<and> length (indices b) = BATCH_SIZE \<and> indices b ! 0 = 0 \<and> indices b ! 31 = 1)
   \<and> sample_probs (buf\<lparr>prob_alpha := 1, priorities := [5, 1, 0]\<rparr>) = Some [5 / 6, 1 / 6]
   \<and> per_wf (buf\<lparr>prob_alpha := 0, priorities := [5, 1, 0]\<rparr>)
   \<and> (\<exists>b. sample (\<lambda>x. x) (buf\<lparr>prob_alpha := 0, priorities := [5, 1, 0]\<rparr>) 1
              (\<lambda>i. if i < 16 then 1 / 2 else 9 / 10) = Inr b
          \<and> indices b ! 0 = 1)
   \<and> sample_probs (buf\<lparr>prob_alpha := 0, priorities := [5, 1, 0]\<rparr>) = Some [1 / 2, 1 / 2]"
proof -
  let ?A = "buf\<lparr>prob_alpha := 1, priorities := [5, 1, 0]\<rparr>"
  let ?B = "buf\<lparr>prob_alpha := 0, priorities := [5, 1, 0]\<rparr>"
  let ?rng = "\<lambda>i::nat. if i < 16 then 1 / 2 else 9 / 10 :: real"
  have wa: "per_wf ?A" and wb: "per_wf ?B" by (simp_all add: per_wf_def buf_def)
  have u: "uniform_samples ?rng BATCH_SIZE" by (simp add: uniform_samples_def list_all_iff)
  have r: "\<forall>i<BATCH_SIZE. 0 \<le> ?rng i \<and> ?rng i < 1" by simp
  have ma: "meaningful ?A = [5, 1]" and mb: "meaningful ?B = [5, 1]"
    by (simp_all add: meaningful_def len_def buf_def)
  have "those (map (\<lambda>x. np_pow x 1) [5, 1]) = Some (map (\<lambda>x. x) [5, 1])"
    by (rule those_map_Some) (auto simp: np_pow_def)
  then have pa: "sample_probs ?A = Some [5 / 6, 1 / 6]"
    unfolding sample_probs_wf [OF wa] ma by (simp add: normalise_def)
  have "those (map (\<lambda>x. np_pow x 0) [5, 1]) = Some (map (\<lambda>x. 1) [5 :: real, 1])"
    by (rule those_map_Some) (auto simp: np_pow_def)
  then have pb: "sample_probs ?B = Some [1 / 2, 1 / 2]"
    unfolding sample_probs_wf [OF wb] mb by (simp add: normalise_def)
  have na: "memory ?A \<noteq> []" and nb: "memory ?B \<noteq> []" by (simp_all add: buf_def)
  from sample_ok(1) [OF pa na _ _ _ r refl, of "\<lambda>x. x" 1]
  obtain ba where sa: "sample (\<lambda>x. x) ?A 1 ?rng = Inr ba" by (auto simp: buf_def)
  have a0: "prob_alpha ?B = 0 \<and> memory ?B \<noteq> []" using nb by simp
  note db = sample_distribution [OF wb u, of "\<lambda>x. x" 1]
  from db [THEN conjunct2, rule_format, OF a0]
  obtain bb where sb: "sample (\<lambda>x. x) ?B 1 ?rng = Inr bb" by blast
  from sample_distribution [OF wa u, of "\<lambda>x. x" 1 ba, THEN conjunct1, rule_format, OF sa]
  obtain v where
    v: "sample_probs ?A = Some (normalise v)" "length (indices ba) = BATCH_SIZE"
    "\<forall>i<BATCH_SIZE. indices ba ! i < len ?A
       \<and> (\<forall>k<len ?A. indices ba ! i = k \<longleftrightarrow>
              cum (normalise v) k \<le> ?rng i \<and> ?rng i < cum (normalise v) k + normalise v ! k)"
    by blast
  from v(1) pa have nv: "normalise v = [5 / 6, 1 / 6]" by simp
  have la: "len ?A = 2" by (simp add: len_def buf_def)
  from v(3) have "indices ba ! 0 = 0" "indices ba ! 31 = 1"
    unfolding nv la by (simp_all add: BATCH_SIZE_def cum_def)
  with sa v(2) have ea: "\<exists>b. sample (\<lambda>x. x) ?A 1 ?rng = Inr b
          \<and> length (indices b) = BATCH_SIZE \<and> indices b ! 0 = 0 \<and> indices b ! 31 = 1"
    by blast
  from db [of bb, THEN conjunct1, rule_format, OF sb] obtain w where
    w: "sample_probs ?B = Some (normalise w)"
    "\<forall>i<BATCH_SIZE. indices bb ! i < len ?B
       \<and> (\<forall>k<len ?B. indices bb ! i = k \<longleftrightarrow>
              cum (normalise w) k \<le> ?rng i \<and> ?rng i < cum (normalise w) k + normalise w ! k)"
    by blast
  from w(1) pb have nw: "normalise w = [1 / 2, 1 / 2]" by simp
  have lb: "len ?B = 2" by (simp add: len_def buf_def)
  from w(2) have "indices bb ! 0 = 1"
    unfolding nw lb by (simp add: BATCH_SIZE_def cum_def)
  with sb have eb: "\<exists>b. sample (\<lambda>x. x) ?B 1 ?rng = Inr b \<and> indices b ! 0 = 1" by blast
  from wa wb u ea eb pa pb show ?thesis by blast
qed

lemma episode_probs:
  assumes "0 < c" "32 \<le> c"
  shows "sample_probs \<lparr>prob_alpha = a, capacity = c, memory = episode, pos = 32 mod c,
            priorities = replicate 32 1 @ replicate (c - 32) 0\<rparr> = Some (replicate 32 (1 / 32))"
proof -
  let ?p = "\<lparr>prob_alpha = a, capacity = c, memory = episode, pos = 32 mod c,
            priorities = replicate 32 1 @ replicate (c - 32) 0\<rparr>"
  have le: "length episode = 32" by (simp add: episode_def)
  have wf: "per_wf ?p" using assms by (simp add: per_wf_def le)
  have m: "meaningful ?p = replicate 32 1" by (simp add: meaningful_def len_def le)
  have "those (map (\<lambda>x. np_pow x a) (replicate 32 1)) = Some (map (\<lambda>x. 1) (replicate 32 (1::real)))"
    by (rule those_map_Some) (simp add: np_pow_def)
  then show ?thesis
    unfolding sample_probs_wf [OF wf] m by (simp add: normalise_def sum_list_replicate)
qed

lemma uniform_draw:
  assumes "k < 32" "real k / 32 \<le> u" "u < (real k + 1) / 32"
  shows "searchsorted_right (cumsum (replicate 32 (1 / 32))) u = k"
proof (rule searchsorted_unique)
  show "list_all (\<lambda>x. 0 \<le> x) (replicate 32 (1 / 32 :: real))" by (simp add: list_all_iff)
  show "k < length (replicate 32 (1 / 32 :: real))" using assms(1) by simp
  show "cum (replicate 32 (1 / 32)) k \<le> u"
    using assms(1,2) by (simp add: cum_def sum_list_replicate min_def)
  show "u < cum (replicate 32 (1 / 32)) (Suc k)"
    using assms(1,3) by (simp add: cum_def sum_list_replicate min_def add_divide_distrib)
qed

lemma episode_sample:
  assumes "0 < c" "32 \<le> c" "k < 32" "real k / 32 \<le> u" "u < (real k + 1) / 32"
  shows "sample f32 \<lparr>prob_alpha = a, capacity = c, memory = episode, pos = 32 mod c,
            priorities = replicate 32 1 @ replicate (c - 32) 0\<rparr> beta (\<lambda>i. u) =
     Inr \<lparr>states = replicate 32 (state (episode ! k)),
          actions = replicate 32 (action (episode ! k)),
          rewards = replicate 32 (reward (episode ! k)),
          next_states = replicate 32 (next_state (episode ! k)),
          dones = replicate 32 (done_flag (episode ! k)),
          indices = replicate 32 k,
          weights = map f32 (spec_weights 32 (replicate 32 (1 / 32)) beta (replicate 32 k))\<rparr>"
proof -
  let ?p = "\<lparr>prob_alpha = a, capacity = c, memory = episode, pos = 32 mod c,
            priorities = replicate 32 1 @ replicate (c - 32) 0\<rparr>"
  have le: "length episode = 32" by (simp add: episode_def)
  have ne: "memory ?p \<noteq> []" by (simp add: episode_def)
  have u: "0 \<le> u" "u < 1" using assms(3,4,5) by (auto simp: field_simps intro: order_trans [of 0 "real k / 32"])
  have r: "\<forall>i<BATCH_SIZE. 0 \<le> (\<lambda>i::nat. u) i \<and> (\<lambda>i::nat. u) i < 1" using u by simp
  have i: "replicate 32 k = map (\<lambda>i. searchsorted_right (cumsum (replicate 32 (1 / 32))) ((\<lambda>i::nat. u) i))
             [0..<BATCH_SIZE]"
    by (simp add: uniform_draw [OF assms(3,4,5)] map_replicate_const BATCH_SIZE_def)
  from sample_ok(1) [OF episode_probs [OF assms(1,2)] ne _ _ _ r i, of f32 beta]
  show ?thesis by (simp add: le list_all_iff sum_list_replicate len_def)
qed

subsection \<open>A training step on one episode\<close>

lemma sequence_err_length: "sequence_err ms = Inr ys \<Longrightarrow> length ys = length ms"
  by (induction ms arbitrary: ys) (auto simp: ebind_eq_Inr)

lemma sample_Inr_lengths:
  assumes "sample f32 p beta rng = Inr b"
  shows "length (indices b) = BATCH_SIZE" "length (next_states b) = BATCH_SIZE"
    "length (rewards b) = BATCH_SIZE" "length (weights b) = BATCH_SIZE"
proof -
  from sample_Inr_D [OF assms] obtain probs where
    sp: "sample_probs p = Some probs"
    and ib: "indices b = map (\<lambda>i. searchsorted_right (cumsum probs) (rng i)) [0..<BATCH_SIZE]"
    by blast
  show il: "length (indices b) = BATCH_SIZE" by (simp add: ib)
  from assms have "\<exists>drawn w trs.
      sequence_err (map (list_get probs) (indices b)) = Inr drawn
      \<and> those (map (\<lambda>x. np_pow (real (length (memory p)) * x) (- beta)) drawn) = Some w
      \<and> sequence_err (map (list_get (memory p)) (indices b)) = Inr trs
      \<and> length (next_states b) = length trs \<and> length (rewards b) = length trs
      \<and> length (weights b) = length w"
    unfolding sample_def sp
    by (auto simp: Let_def ebind_eq_Inr torch_cat_def split: if_splits option.splits)
  then obtain drawn w trs where
    dr: "sequence_err (map (list_get probs) (indices b)) = Inr drawn"
    and th: "those (map (\<lambda>x. np_pow (real (length (memory p)) * x) (- beta)) drawn) = Some w"
    and tr: "sequence_err (map (list_get (memory p)) (indices b)) = Inr trs"
    and nb: "length (next_states b) = length trs" and rb: "length (rewards b) = length trs"
    and wb: "length (weights b) = length w"
    by blast
  from sequence_err_length [OF tr] il
  show "length (next_states b) = BATCH_SIZE" "length (rewards b) = BATCH_SIZE"
    by (simp_all add: nb rb)
  from sequence_err_length [OF dr] those_length [OF th] il show "length (weights b) = BATCH_SIZE"
    by (simp add: wb)
qed

lemma row_max_Inr_D:
  "row_max rows = Inr tv \<Longrightarrow> list_all (\<lambda>r. r \<noteq> []) rows"
proof (induction rows arbitrary: tv)
  case Nil
  show ?case by simp
next
  case (Cons r rows)
  then show ?case
    by (auto simp: row_max_def ebind_eq_Inr split: if_splits)
qed

lemma expected_q_value_Inr:
  assumes "length next_st = BATCH_SIZE" "length rewardv = BATCH_SIZE"
    and "expected_q_value target_net next_st rewardv = Inr e"
  shows "e = spec_targets target_net next_st rewardv" and "non_final next_st \<noteq> []"
proof -
  from assms(3) show ne: "non_final next_st \<noteq> []"
    by (auto simp: expected_q_value_def Let_def torch_cat_def split: if_splits)
  then have c: "torch_cat (non_final next_st) = Inr (non_final next_st)" by (simp add: torch_cat_def)
  from assms(3) obtain tv where "row_max (map target_net (non_final next_st)) = Inr tv"
    unfolding expected_q_value_def Let_def c by (auto simp: ebind_eq_Inr)
  from row_max_Inr_D [OF this] have "list_all (\<lambda>s. target_net s \<noteq> []) (non_final next_st)"
    by (simp add: list_all_iff)
  from expected_q_value_eq [OF assms(1,2) ne this] assms(3)
  show "e = spec_targets target_net next_st rewardv" by (simp add: spec_targets_def)
qed

lemma update_loop_same:
  "0 < n \<Longrightarrow> prs \<noteq> [] \<Longrightarrow> r \<noteq> [] \<Longrightarrow>
   update_loop prs (replicate n (0, r)) = Inr (prs[0 := hd r])"
proof (induction n arbitrary: prs)
  case 0
  then show ?case by simp
next
  case (Suc n)
  have s: "np_setitem prs 0 (hd r) = Inr (prs[0 := hd r])"
    using Suc.prems(2) by (simp add: np_setitem_def)
  have g: "list_get r 0 = Inr (hd r)" using Suc.prems(3) by (simp add: list_get_def hd_conv_nth)
  show ?case
  proof (cases "n = 0")
    case True
    with s g show ?thesis by simp
  next
    case False
    with Suc.IH [of "prs[0 := hd r]"] Suc.prems(2,3) s g show ?thesis by simp
  qed
qed

lemma train_example:
  "optimize_model (\<lambda>x. x) pn0 tn0
      \<lparr>prob_alpha = 1, capacity = 32, memory = episode, pos = 0, priorities = replicate 32 1\<rparr>
      1 (\<lambda>i. 0)
    = Inr (\<lparr>prob_alpha = 1, capacity = 32, memory = episode, pos = 0,
            priorities = (replicate 32 1)[0 := 169 / 25 + 1 / 100000]\<rparr>,
           Some (mean (replicate 32 (replicate 32 (169 / 25)))))"
proof -
  let ?p = "\<lparr>prob_alpha = 1, capacity = 32, memory = episode, pos = 0,
             priorities = replicate 32 (1::real)\<rparr>"
  let ?b = "\<lparr>states = replicate 32 (0::nat), actions = replicate 32 0, rewards = replicate 32 1,
          next_states = replicate 32 (Some 1), dones = replicate 32 False,
          indices = replicate 32 0, weights = replicate 32 1\<rparr>"
  let ?L = "replicate 32 (replicate 32 (169 / 25 :: real))"
  have le: "length episode = 32" by (simp add: episode_def)
  have big: "\<not> len ?p < BATCH_SIZE" by (simp add: BATCH_SIZE_def len_def le)
  have e0: "episode ! 0 = tr 0 False" by (simp add: episode_def nth_append)
  have sw: "spec_weights 32 (replicate 32 (1 / 32)) 1 (replicate 32 0) = replicate 32 1"
    by (simp add: spec_weights_def)
  have s: "sample (\<lambda>x. x) ?p 1 (\<lambda>i. 0) = Inr ?b"
    using episode_sample [of 32 0 0 "\<lambda>x. x" 1 1] by (simp add: e0 tr_def sw)
  have nf: "non_final (replicate 32 (Some (1::nat))) = replicate 32 1"
    by (simp add: non_final_def)
  have c: "torch_cat (replicate 32 (1::nat)) = Inr (replicate 32 1)" by (simp add: torch_cat_def)
  have g: "gather1 (pn0 (replicate 32 0)) (replicate 32 0) = Inr (replicate 32 [0])"
    by (simp add: gather1_def pn0_def sequence_err_replicate)
  have "expected_q_value tn0 (replicate 32 (Some 1)) (replicate 32 1)
      = Inr (map (\<lambda>(ns, r). case ns of None \<Rightarrow> r | Some s \<Rightarrow> r + GAMMA * Max (set (tn0 s)))
               (zip (replicate 32 (Some 1)) (replicate 32 1)))"
    by (rule expected_q_value_eq) (simp_all add: BATCH_SIZE_def non_final_def tn0_def list_all_iff)
  then have e: "expected_q_value tn0 (replicate 32 (Some 1)) (replicate 32 1)
      = Inr (replicate 32 (13 / 5))"
    by (simp add: GAMMA_def tn0_def)
  have "t2_op (-) (replicate 32 [0]) (unsqueeze1 (replicate 32 (13 / 5)))
      = Inr (map (\<lambda>(r, y). [hd r - y]) (zip (replicate 32 [0]) (replicate 32 (13 / 5))))"
    by (rule t2_op_columns) (simp_all add: list_all_iff)
  then have d: "t2_op (-) (replicate 32 [0]) (unsqueeze1 (replicate 32 (13 / 5)))
      = Inr (replicate 32 [- (13 / 5)])"
    by simp
  have "td_loss (replicate 32 [0]) (replicate 32 (13 / 5)) (replicate 32 1)
      = Inr (map (\<lambda>(r, y). map (\<lambda>w. (hd r - y) ^ 2 * w) (replicate 32 1))
               (zip (replicate 32 [0]) (replicate 32 (13 / 5))))"
    by (rule td_loss_rows) (simp_all add: list_all_iff)
  then have l: "td_loss (replicate 32 [0]) (replicate 32 (13 / 5)) (replicate 32 1) = Inr ?L"
    by (simp add: power2_eq_square)
  have f1: "\<not> \<not> (finite32 [replicate 32 (13 / 5)] \<and> finite32 (replicate 32 [- (13 / 5)])
      \<and> finite32 (map (map (\<lambda>x. x ^ 2)) (replicate 32 [- (13 / 5)])))"
    by (simp add: finite32_def FLT_MAX_def list_all_iff power2_eq_square)
  have f2: "\<not> \<not> (finite32 ?L \<and> finite32 (td_prios ?L))"
    by (simp add: finite32_def FLT_MAX_def list_all_iff td_prios_def)
  have z: "zip (map int (replicate 32 0)) (td_prios ?L)
      = replicate 32 (0, replicate 32 (169 / 25 + 1 / 100000))"
    by (simp add: td_prios_def)
  have "update_loop (replicate 32 1) (replicate 32 (0, replicate 32 (169 / 25 + 1 / 100000)))
      = Inr ((replicate 32 1)[0 := hd (replicate 32 (169 / 25 + 1 / 100000))])"
    by (rule update_loop_same) simp_all
  then have u: "update_priorities ?p (map int (replicate 32 0)) (td_prios ?L)
           = Inr (?p\<lparr>priorities := (replicate 32 1)[0 := 169 / 25 + 1 / 100000]\<rparr>)"
    unfolding update_priorities_def z by simp
  show ?thesis
    unfolding optimize_model_def if_not_P [OF big] s ebind_Inr batch.select_convs nf c g e d
      if_not_P [OF f1] l if_not_P [OF f2] u
    by simp
qed

subsection \<open>C10 and C9: the bootstrap targets\<close>

lemma non_final_empty: "non_final ns = [] \<longleftrightarrow> (\<forall>x \<in> set ns. x = None)"
  by (auto simp: non_final_def filter_empty_conv)

lemma spec_targets_terminal:
  assumes "length ns = length r" "non_final ns = []"
  shows "spec_targets tn ns r = r"
proof -
  from assms(2) have "\<forall>x \<in> set (zip ns r). fst x = None"
    by (auto simp: non_final_empty dest: set_zip_leftD)
  then have "map (\<lambda>(ns, r). case ns of None \<Rightarrow> r | Some s \<Rightarrow> r + GAMMA * Max (set (tn s))) (zip ns r)
      = map snd (zip ns r)"
    by (intro map_cong) auto
  with assms(1) show ?thesis by (simp add: spec_targets_def)
qed

text \<open>
  C10. After the 32 pushes of one episode into a fresh buffer of capacity 10000, the
  generator may return the uniform sample 63/64 for each of the 32 draws, which selects
  the index of the terminal transition 32 times. \<open>sample\<close> then returns a batch whose
  next states are all \<open>None\<close>, and the training step raises RuntimeError at the
  concatenation of the empty list of non-final next states, whatever the networks, the
  cast and \<open>beta\<close> are.
\<close>

theorem all_terminal_batch_raises:
  "\<exists>p b. pushes (init 10000 (6 / 10)) episode = Inr p \<and> BATCH_SIZE \<le> len p
      \<and> uniform_samples (\<lambda>i. 63 / 64) BATCH_SIZE
      \<and> sample f32 p beta (\<lambda>i. 63 / 64) = Inr b
      \<and> indices b = replicate 32 31
      \<and> next_states b = replicate 32 None
      \<and> optimize_model f32 policy_net target_net p beta (\<lambda>i. 63 / 64) = Inl RuntimeError"
proof -
  let ?p = "\<lparr>prob_alpha = 6 / 10, capacity = 10000, memory = episode, pos = 32 mod 10000,
          priorities = replicate 32 1 @ replicate (10000 - 32) 0\<rparr>"
  let ?b = "\<lparr>states = replicate 32 (state (episode ! 31)),
          actions = replicate 32 (action (episode ! 31)),
          rewards = replicate 32 (reward (episode ! 31)),
          next_states = replicate 32 (next_state (episode ! 31)),
          dones = replicate 32 (done_flag (episode ! 31)),
          indices = replicate 32 31,
          weights = map f32 (spec_weights 32 (replicate 32 (1 / 32)) beta (replicate 32 31))\<rparr>"
  have le: "length episode = 32" by (simp add: episode_def)
  have run: "pushes (init 10000 (6 / 10)) episode = Inr ?p"
    using pushes_init_small [of 10000 episode "6 / 10"] by (simp add: le)
  have big: "BATCH_SIZE \<le> len ?p" by (simp add: BATCH_SIZE_def len_def le)
  then have nb: "\<not> len ?p < BATCH_SIZE" by simp
  have u: "uniform_samples (\<lambda>i. 63 / 64) BATCH_SIZE"
    by (simp add: uniform_samples_def list_all_iff)
  have s: "sample f32 ?p beta (\<lambda>i. 63 / 64) = Inr ?b"
    by (rule episode_sample) simp_all
  have last: "next_state (episode ! 31) = None" by (simp add: episode_def nth_append tr_def)
  have nf: "non_final (replicate 32 (None :: nat option)) = []" by (simp add: non_final_def)
  have c: "torch_cat ([] :: nat list) = Inl RuntimeError" by (simp add: torch_cat_def)
  have o: "optimize_model f32 policy_net target_net ?p beta (\<lambda>i. 63 / 64) = Inl RuntimeError"
    unfolding optimize_model_def if_not_P [OF nb] s ebind_Inr batch.select_convs last nf c ebind_Inl ..
  have "indices ?b = replicate 32 31" "next_states ?b = replicate 32 None" by (simp_all add: last)
  with run big u s o show ?thesis by blast
qed

text \<open>The statement of C10 with the stand-in networks and \<open>beta = 0.4\<close>.\<close>

theorem all_terminal_batch_raises_witness:
  "\<exists>p b. pushes (init 10000 (6 / 10)) episode = Inr p \<and> BATCH_SIZE \<le> len p
      \<and> uniform_samples (\<lambda>i. 63 / 64) BATCH_SIZE
      \<and> sample (\<lambda>x. x) p (4 / 10) (\<lambda>i. 63 / 64) = Inr b
      \<and> indices b = replicate 32 31
      \<and> next_states b = replicate 32 None
      \<and> optimize_model (\<lambda>x. x) pn0 tn0 p (4 / 10) (\<lambda>i. 63 / 64) = Inl RuntimeError"
  by (rule all_terminal_batch_raises)

text \<open>
  C9. A training step on a buffer of at least \<open>BATCH_SIZE\<close> transitions, in three parts.
  When the step completes, its batch has a transition that is not terminal, and the
  targets the step compares the action values with are the reward for a terminal
  transition and the reward plus \<open>GAMMA\<close> times the largest value of the target network
  at the next state for any other; the loss, the priorities written back and the
  returned mean come from these targets. When every transition of the batch is
  terminal, the targets of the claim are the rewards, but the step computes none: it
  raises RuntimeError at line 241. The target network is applied to next states other
  than the sentinel only: a target network that agrees with it on the non-terminal
  next states of the batch gives the same step.
\<close>

theorem bootstrap_targets:
  "(\<not> len p < BATCH_SIZE \<and> optimize_model f32 pn tn p beta rng = Inr (p', l) \<longrightarrow>
      (\<exists>b q loss. sample f32 p beta rng = Inr b \<and> non_final (next_states b) \<noteq> []
          \<and> expected_q_value tn (next_states b) (rewards b)
               = Inr (spec_targets tn (next_states b) (rewards b))
          \<and> gather1 (pn (states b)) (actions b) = Inr q
          \<and> td_loss q (spec_targets tn (next_states b) (rewards b)) (weights b) = Inr loss
          \<and> update_priorities p (map int (indices b)) (td_prios loss) = Inr p'
          \<and> l = Some (mean loss)))
   \<and> (\<not> len p < BATCH_SIZE \<and> sample f32 p beta rng = Inr b \<and> non_final (next_states b) = [] \<longrightarrow>
        spec_targets tn (next_states b) (rewards b) = rewards b
        \<and> optimize_model f32 pn tn p beta rng = Inl RuntimeError)
   \<and> (sample f32 p beta rng = Inr b \<and> (\<forall>s. Some s \<in> set (next_states b) \<longrightarrow> tn' s = tn s) \<longrightarrow>
        optimize_model f32 pn tn' p beta rng = optimize_model f32 pn tn p beta rng)"
proof (intro conjI impI)
  assume a: "\<not> len p < BATCH_SIZE \<and> optimize_model f32 pn tn p beta rng = Inr (p', l)"
  then have nb: "\<not> len p < BATCH_SIZE" and o: "optimize_model f32 pn tn p beta rng = Inr (p', l)"
    by simp_all
  from o obtain b where s: "sample f32 p beta rng = Inr b"
    unfolding optimize_model_def if_not_P [OF nb] by (auto simp: ebind_eq_Inr)
  from o have "\<exists>q e loss. gather1 (pn (states b)) (actions b) = Inr q
      \<and> expected_q_value tn (next_states b) (rewards b) = Inr e
      \<and> td_loss q e (weights b) = Inr loss
      \<and> update_priorities p (map int (indices b)) (td_prios loss) = Inr p'
      \<and> l = Some (mean loss)"
    unfolding optimize_model_def if_not_P [OF nb] s ebind_Inr
    by (auto simp: ebind_eq_Inr split: if_splits)
  then obtain q e loss where g: "gather1 (pn (states b)) (actions b) = Inr q"
    and e: "expected_q_value tn (next_states b) (rewards b) = Inr e"
    and t: "td_loss q e (weights b) = Inr loss"
    and u: "update_priorities p (map int (indices b)) (td_prios loss) = Inr p'"
    and l: "l = Some (mean loss)"
    by blast
  note ln = sample_Inr_lengths [OF s]
  note ex = expected_q_value_Inr [OF ln(2,3) e]
  from s ex e g t u l
  show "\<exists>b q loss. sample f32 p beta rng = Inr b \<and> non_final (next_states b) \<noteq> []
          \<and> expected_q_value tn (next_states b) (rewards b)
               = Inr (spec_targets tn (next_states b) (rewards b))
          \<and> gather1 (pn (states b)) (actions b) = Inr q
          \<and> td_loss q (spec_targets tn (next_states b) (rewards b)) (weights b) = Inr loss
          \<and> update_priorities p (map int (indices b)) (td_prios loss) = Inr p'
          \<and> l = Some (mean loss)"
    by blast
next
  assume a: "\<not> len p < BATCH_SIZE \<and> sample f32 p beta rng = Inr b \<and> non_final (next_states b) = []"
  then have s: "sample f32 p beta rng = Inr b" and nf: "non_final (next_states b) = []" by simp_all
  note ln = sample_Inr_lengths [OF s]
  from ln(2,3) nf show "spec_targets tn (next_states b) (rewards b) = rewards b"
    by (intro spec_targets_terminal) simp_all
next
  assume a: "\<not> len p < BATCH_SIZE \<and> sample f32 p beta rng = Inr b \<and> non_final (next_states b) = []"
  then have nb: "\<not> len p < BATCH_SIZE" and s: "sample f32 p beta rng = Inr b"
    and nf: "non_final (next_states b) = []" by simp_all
  show "optimize_model f32 pn tn p beta rng = Inl RuntimeError"
    unfolding optimize_model_def if_not_P [OF nb] s ebind_Inr nf
    by (simp add: torch_cat_def)
next
  assume a: "sample f32 p beta rng = Inr b \<and> (\<forall>s. Some s \<in> set (next_states b) \<longrightarrow> tn' s = tn s)"
  then have s: "sample f32 p beta rng = Inr b" by simp
  from a have "map tn' (non_final (next_states b)) = map tn (non_final (next_states b))"
    by (auto simp: non_final_def)
  then have c: "expected_q_value tn' (next_states b) (rewards b)
      = expected_q_value tn (next_states b) (rewards b)"
    by (rule expected_q_value_cong)
  show "optimize_model f32 pn tn' p beta rng = optimize_model f32 pn tn p beta rng"
    unfolding optimize_model_def s ebind_Inr c ..
qed

lemma p0_sample:
  assumes "k < 32" "real k / 32 \<le> u" "u < (real k + 1) / 32"
  shows "sample (\<lambda>x. x)
      \<lparr>prob_alpha = 1, capacity = 32, memory = episode, pos = 0, priorities = replicate 32 1\<rparr>
      1 (\<lambda>i. u) =
     Inr \<lparr>states = replicate 32 (state (episode ! k)),
          actions = replicate 32 (action (episode ! k)),
          rewards = replicate 32 (reward (episode ! k)),
          next_states = replicate 32 (next_state (episode ! k)),
          dones = replicate 32 (done_flag (episode ! k)),
          indices = replicate 32 k, weights = replicate 32 1\<rparr>"
proof -
  have sw: "spec_weights 32 (replicate 32 (1 / 32)) 1 (replicate 32 k) = replicate 32 1"
    using assms(1) by (simp add: spec_weights_def)
  show ?thesis
    using episode_sample [of 32 k u "\<lambda>x. x" 1 1, OF _ _ assms] by (simp add: sw)
qed

text \<open>
  The three parts of C9 on the buffer that holds one episode: the step that draws the
  first transition 32 times completes with the targets \<open>1 + 0.8 * 2\<close>; the step that
  draws the terminal transition 32 times raises RuntimeError where the targets would be
  the rewards; a target network that returns an empty row off the next state of the
  batch gives the same completed step.
\<close>

theorem bootstrap_targets_witness:
  "\<not> len \<lparr>prob_alpha = 1, capacity = 32, memory = episode, pos = 0, priorities = replicate 32 1\<rparr>
       < BATCH_SIZE
   \<and> optimize_model (\<lambda>x. x) pn0 tn0
        \<lparr>prob_alpha = 1, capacity = 32, memory = episode, pos = 0, priorities = replicate 32 1\<rparr>
        1 (\<lambda>i. 0)
      = Inr (\<lparr>prob_alpha = 1, capacity = 32, memory = episode, pos = 0,
              priorities = (replicate 32 1)[0 := 169 / 25 + 1 / 100000]\<rparr>,
             Some (mean (replicate 32 (replicate 32 (169 / 25)))))
   \<and> (\<exists>b. sample (\<lambda>x. x)
             \<lparr>prob_alpha = 1, capacity = 32, memory = episode, pos = 0, priorities = replicate 32 1\<rparr>
             1 (\<lambda>i. 0) = Inr b
          \<and> next_states b = replicate 32 (Some 1) \<and> rewards b = replicate 32 1
          \<and> expected_q_value tn0 (next_states b) (rewards b) = Inr (replicate 32 (13 / 5)))
   \<and> (\<exists>b. sample (\<lambda>x. x)
             \<lparr>prob_alpha = 1, capacity = 32, memory = episode, pos = 0, priorities = replicate 32 1\<rparr>
             1 (\<lambda>i. 63 / 64) = Inr b
          \<and> next_states b = replicate 32 None \<and> non_final (next_states b) = []
          \<and> spec_targets tn0 (next_states b) (rewards b) = replicate 32 1)
   \<and> optimize_model (\<lambda>x. x) pn0 tn0
        \<lparr>prob_alpha = 1, capacity = 32, memory = episode, pos = 0, priorities = replicate 32 1\<rparr>
        1 (\<lambda>i. 63 / 64) = Inl RuntimeError
   \<and> optimize_model (\<lambda>x. x) pn0 (\<lambda>s. if s = 1 then [1, 2] else [])
        \<lparr>prob_alpha = 1, capacity = 32, memory = episode, pos = 0, priorities = replicate 32 1\<rparr>
        1 (\<lambda>i. 0)
      = Inr (\<lparr>prob_alpha = 1, capacity = 32, memory = episode, pos = 0,
              priorities = (replicate 32 1)[0 := 169 / 25 + 1 / 100000]\<rparr>,
             Some (mean (replicate 32 (replicate 32 (169 / 25)))))"
proof -
  let ?p = "\<lparr>prob_alpha = 1, capacity = 32, memory = episode, pos = 0,
             priorities = replicate 32 (1::real)\<rparr>"
  let ?p1 = "\<lparr>prob_alpha = 1, capacity = 32, memory = episode, pos = 0,
              priorities = (replicate 32 (1::real))[0 := 169 / 25 + 1 / 100000]\<rparr>"
  let ?l = "Some (mean (replicate 32 (replicate 32 (169 / 25 :: real))))"
  let ?tn = "\<lambda>s::nat. if s = 1 then [1, 2 :: real] else []"
  let ?b0 = "\<lparr>states = replicate 32 (state (episode ! 0)),
          actions = replicate 32 (action (episode ! 0)),
          rewards = replicate 32 (reward (episode ! 0)),
          next_states = replicate 32 (next_state (episode ! 0)),
          dones = replicate 32 (done_flag (episode ! 0)),
          indices = replicate 32 0, weights = replicate 32 (1::real)\<rparr>"
  let ?b1 = "\<lparr>states = replicate 32 (state (episode ! 31)),
          actions = replicate 32 (action (episode ! 31)),
          rewards = replicate 32 (reward (episode ! 31)),
          next_states = replicate 32 (next_state (episode ! 31)),
          dones = replicate 32 (done_flag (episode ! 31)),
          indices = replicate 32 31, weights = replicate 32 (1::real)\<rparr>"
  have le: "length episode = 32" by (simp add: episode_def)
  have nb: "\<not> len ?p < BATCH_SIZE" by (simp add: BATCH_SIZE_def len_def le)
  have e0: "episode ! 0 = tr 0 False" and e31: "episode ! 31 = tr 1 True"
    by (simp_all add: episode_def nth_append)
  have s0: "sample (\<lambda>x. x) ?p 1 (\<lambda>i. 0) = Inr ?b0" by (rule p0_sample) simp_all
  have s1: "sample (\<lambda>x. x) ?p 1 (\<lambda>i. 63 / 64) = Inr ?b1" by (rule p0_sample) simp_all
  have nf: "non_final (next_states ?b1) = []" by (simp add: e31 tr_def non_final_def)
  note t = train_example
  note B0 = bootstrap_targets [of ?p "\<lambda>x. x" pn0 tn0 1 "\<lambda>i. 0" ?p1 ?l ?b0 ?tn]
  note B1 = bootstrap_targets [of ?p "\<lambda>x. x" pn0 tn0 1 "\<lambda>i. 63 / 64" ?p1 ?l ?b1 ?tn]
  from B0 nb t obtain b where
    b: "sample (\<lambda>x. x) ?p 1 (\<lambda>i. 0) = Inr b"
    "expected_q_value tn0 (next_states b) (rewards b)
       = Inr (spec_targets tn0 (next_states b) (rewards b))"
    by blast
  from b(1) s0 have bb: "b = ?b0" by simp
  have st: "spec_targets tn0 (next_states ?b0) (rewards ?b0) = replicate 32 (13 / 5)"
    by (simp add: spec_targets_def e0 tr_def tn0_def GAMMA_def)
  have c1: "\<exists>b. sample (\<lambda>x. x) ?p 1 (\<lambda>i. 0) = Inr b
          \<and> next_states b = replicate 32 (Some 1) \<and> rewards b = replicate 32 1
          \<and> expected_q_value tn0 (next_states b) (rewards b) = Inr (replicate 32 (13 / 5))"
    using b(2) s0 unfolding bb st by (intro exI [of _ ?b0]) (simp add: e0 tr_def)
  from B1 nb s1 nf have r1: "spec_targets tn0 (next_states ?b1) (rewards ?b1) = rewards ?b1"
    and o1: "optimize_model (\<lambda>x. x) pn0 tn0 ?p 1 (\<lambda>i. 63 / 64) = Inl RuntimeError"
    by blast+
  have c2: "\<exists>b. sample (\<lambda>x. x) ?p 1 (\<lambda>i. 63 / 64) = Inr b
          \<and> next_states b = replicate 32 None \<and> non_final (next_states b) = []
          \<and> spec_targets tn0 (next_states b) (rewards b) = replicate 32 1"
    using s1 nf r1 by (intro exI [of _ ?b1]) (simp add: e31 tr_def)
  have "\<forall>s. Some s \<in> set (next_states ?b0) \<longrightarrow> ?tn s = tn0 s"
    by (simp add: e0 tr_def tn0_def)
  with B0 s0 have "optimize_model (\<lambda>x. x) pn0 ?tn ?p 1 (\<lambda>i. 0)
      = optimize_model (\<lambda>x. x) pn0 tn0 ?p 1 (\<lambda>i. 0)"
    by blast
  with t have c3: "optimize_model (\<lambda>x. x) pn0 ?tn ?p 1 (\<lambda>i. 0) = Inr (?p1, ?l)" by simp
  from nb t c1 c2 o1 c3 show ?thesis by blast
qed

subsection \<open>C7: the stored priorities stay positive\<close>















end
